theory Spec2Isabelle
  imports Main "HOL-Library.Sublist" "HOL-Library.Multiset"
begin

section \<open>Kosaraju's strongly connected components: the program\<close>

text \<open>
  The embedding follows \<^verbatim>\<open>scc::KosarajuSCC\<close> in \<^verbatim>\<open>kosaraju.cpp\<close>.

  \<^item> \<^verbatim>\<open>Graph\<close> and \<^verbatim>\<open>Components\<close> are \<^verbatim>\<open>std::vector<std::vector<int>>\<close>: lists of
    lists of integers. Node values are only compared and used as indices, never added
    or multiplied, so \<^typ>\<open>int\<close> stands for the C++ \<^verbatim>\<open>int\<close>; the node count
    \<^verbatim>\<open>static_cast<int>(graph.size())\<close> is \<open>int (length graph)\<close>, that is, graphs are taken
    to have fewer than \<open>2^31\<close> nodes.
  \<^item> \<^verbatim>\<open>std::vector<bool> visited\<close> is a \<^typ>\<open>bool list\<close>, \<^verbatim>\<open>visited[v] = true\<close> is
    \<open>visited[nat v := True]\<close>.
  \<^item> Every subscript of the source (\<^verbatim>\<open>visited[v]\<close>, \<^verbatim>\<open>graph[v]\<close>, \<^verbatim>\<open>transpose[w]\<close>,
    \<^verbatim>\<open>order[i]\<close>) is undefined behaviour when out of range. The model makes this a
    failure: each function returns an \<open>option\<close>, and \<open>None\<close> stands for an
    out-of-range subscript. That the program never fails is then a theorem.
  \<^item> The mutated reference parameters \<^verbatim>\<open>visited\<close> and \<^verbatim>\<open>order\<close> (or \<^verbatim>\<open>component\<close>)
    are passed in as a pair and returned updated.
  \<^item> Each \<^verbatim>\<open>for\<close> loop is a recursive function over the list it runs through.
\<close>

type_synonym Graph = "int list list"
type_synonym Components = "int list list"

subsection \<open>Termination measure\<close>

definition unvisited_count :: "bool list \<Rightarrow> nat" where
  "unvisited_count visited = length (filter (\<lambda>b. \<not> b) visited)"

lemma unvisited_count_mark_le:
  "unvisited_count (visited[i := True]) \<le> unvisited_count visited"
  unfolding unvisited_count_def
proof (induction visited arbitrary: i)
  case Nil
  then show ?case by simp
next
  case (Cons b bs)
  then show ?case by (cases i) (auto intro: le_SucI)
qed

lemma unvisited_count_mark_less:
  "i < length visited \<Longrightarrow> \<not> visited ! i \<Longrightarrow>
   unvisited_count (visited[i := True]) < unvisited_count visited"
  unfolding unvisited_count_def
proof (induction visited arbitrary: i)
  case Nil
  then show ?case by simp
next
  case (Cons b bs)
  show ?case
  proof (cases i)
    case 0
    with Cons.prems show ?thesis by simp
  next
    case (Suc j)
    with Cons.prems have "j < length bs" "\<not> bs ! j" by auto
    from Cons.IH[OF this] show ?thesis using Suc by simp
  qed
qed

subsection \<open>First pass: \<^verbatim>\<open>dfsFirstPass\<close>\<close>

text \<open>
  \<^verbatim>\<open>
  static void dfsFirstPass(const Graph& graph, int v,
                           std::vector<bool>& visited, std::vector<int>& order) {
      visited[v] = true;
      for (int w : graph[v]) {
          if (w >= 0 && w < static_cast<int>(graph.size()) && !visited[w]) {
              dfsFirstPass(graph, w, visited, order);
          }
      }
      order.push_back(v);
  }
  \<close>
  \<open>dfsFirstPass_loop\<close> is the \<^verbatim>\<open>for\<close> loop over the rest \<open>ws\<close> of \<^verbatim>\<open>graph[v]\<close>. The
  conjunction \<^verbatim>\<open>&&\<close> is short-circuit: \<^verbatim>\<open>visited[w]\<close> is read only for \<open>w\<close> in
  \<open>[0, graph.size())\<close>.
\<close>

function dfsFirstPass ::
    "Graph \<Rightarrow> int \<Rightarrow> bool list \<times> int list \<Rightarrow> (bool list \<times> int list) option"
  and dfsFirstPass_loop ::
    "Graph \<Rightarrow> int list \<Rightarrow> bool list \<times> int list \<Rightarrow> (bool list \<times> int list) option"
where
  "dfsFirstPass graph v (visited, order) =
     (if 0 \<le> v \<and> nat v < length visited \<and> nat v < length graph then
        (case dfsFirstPass_loop graph (graph ! nat v) (visited[nat v := True], order) of
           None \<Rightarrow> None
         | Some (visited', order') \<Rightarrow> Some (visited', order' @ [v]))
      else None)"
| "dfsFirstPass_loop graph [] s = Some s"
| "dfsFirstPass_loop graph (w # ws) (visited, order) =
     (if 0 \<le> w \<and> w < int (length graph) then
        (if nat w < length visited then
           (if \<not> visited ! nat w then
              (case dfsFirstPass graph w (visited, order) of
                 None \<Rightarrow> None
               | Some s' \<Rightarrow> dfsFirstPass_loop graph ws s')
            else dfsFirstPass_loop graph ws (visited, order))
         else None)
      else dfsFirstPass_loop graph ws (visited, order))"
  by pat_completeness auto

lemma dfsFirstPass_dom_mono:
  "dfsFirstPass_dfsFirstPass_loop_dom (Inl (g, v, s)) \<Longrightarrow>
     (\<forall>s'. dfsFirstPass g v s = Some s' \<longrightarrow>
        unvisited_count (fst s') \<le> unvisited_count (fst s))"
  "dfsFirstPass_dfsFirstPass_loop_dom (Inr (g, ws, s)) \<Longrightarrow>
     (\<forall>s'. dfsFirstPass_loop g ws s = Some s' \<longrightarrow>
        unvisited_count (fst s') \<le> unvisited_count (fst s))"
proof (induction g v s and g ws s rule: dfsFirstPass_dfsFirstPass_loop.pinduct)
  case (1 graph v visited order)
  show ?case
  proof (intro allI impI)
    fix s' assume a: "dfsFirstPass graph v (visited, order) = Some s'"
    from a 1(1) have c: "0 \<le> v \<and> nat v < length visited \<and> nat v < length graph"
      by (simp add: dfsFirstPass.psimps split: if_splits)
    from a 1(1) c obtain s1 where
      l: "dfsFirstPass_loop graph (graph ! nat v) (visited[nat v := True], order) = Some s1"
      and f: "fst s' = fst s1"
      by (auto simp: dfsFirstPass.psimps split: option.splits)
    from 1(2)[OF c] l
    have "unvisited_count (fst s1) \<le> unvisited_count (visited[nat v := True])"
      by simp
    also have "\<dots> \<le> unvisited_count visited"
      by (rule unvisited_count_mark_le)
    finally show "unvisited_count (fst s') \<le> unvisited_count (fst (visited, order))"
      using f by simp
  qed
next
  case (2 graph s)
  then show ?case by (simp add: dfsFirstPass_loop.psimps)
next
  case (3 graph w ws visited order)
  show ?case
  proof (intro allI impI)
    fix s' assume a: "dfsFirstPass_loop graph (w # ws) (visited, order) = Some s'"
    show "unvisited_count (fst s') \<le> unvisited_count (fst (visited, order))"
    proof (cases "0 \<le> w \<and> w < int (length graph)")
      case False
      with a 3(1) have "dfsFirstPass_loop graph ws (visited, order) = Some s'"
        by (simp add: dfsFirstPass_loop.psimps)
      with 3(5)[OF False] show ?thesis by simp
    next
      case r: True
      show ?thesis
      proof (cases "nat w < length visited")
        case False
        with a 3(1) r show ?thesis by (simp add: dfsFirstPass_loop.psimps)
      next
        case l: True
        show ?thesis
        proof (cases "visited ! nat w")
          case True
          with a 3(1) r l have "dfsFirstPass_loop graph ws (visited, order) = Some s'"
            by (simp add: dfsFirstPass_loop.psimps)
          with 3(4)[OF r l] True show ?thesis by simp
        next
          case False
          with a 3(1) r l obtain s1 where
            d: "dfsFirstPass graph w (visited, order) = Some s1"
            and l2: "dfsFirstPass_loop graph ws s1 = Some s'"
            by (auto simp: dfsFirstPass_loop.psimps split: option.splits)
          from 3(2)[OF r l False] d
          have "unvisited_count (fst s1) \<le> unvisited_count visited"
            by simp
          moreover from 3(3)[OF r l False d] l2
          have "unvisited_count (fst s') \<le> unvisited_count (fst s1)" by simp
          ultimately show ?thesis by simp
        qed
      qed
    qed
  qed
qed

text \<open>
  Every call of \<^verbatim>\<open>dfsFirstPass\<close>, and every run of its loop, is in the accessible part
  of the call relation: no chain of recursive calls is infinite, whatever the arguments.
\<close>

lemma dfsFirstPass_terminates: "All dfsFirstPass_dfsFirstPass_loop_dom"
proof (relation "inv_image (less_than <*lex*> less_than <*lex*> less_than)
    (\<lambda>x. case x of
        Inl (g, v, visited, order) \<Rightarrow> (unvisited_count (visited[nat v := True]), Suc 0, 0)
      | Inr (g, ws, visited, order) \<Rightarrow> (unvisited_count visited, 0, length ws))",
    goal_cases)
  case 1
  then show ?case by (intro wf_inv_image wf_lex_prod wf_less_than)
next
  case (2 graph v visited order)
  then show ?case by simp
next
  case (3 graph w ws visited order)
  then show ?case by (simp add: unvisited_count_mark_less)
next
  case (4 graph w ws visited order x2)
  from dfsFirstPass_dom_mono(1)[OF 4(5)] 4(4)
  have "unvisited_count (fst x2) \<le> unvisited_count visited" by simp
  then show ?case by (cases x2) auto
next
  case (5 graph w ws visited order)
  then show ?case by simp
next
  case (6 graph w ws visited order)
  then show ?case by simp
qed

termination dfsFirstPass
  by (rule dfsFirstPass_terminates)

subsection \<open>Second pass: \<^verbatim>\<open>dfsSecondPass\<close>\<close>

text \<open>
  \<^verbatim>\<open>
  static void dfsSecondPass(const Graph& transpose, int v,
                            std::vector<bool>& visited, std::vector<int>& component) {
      visited[v] = true;
      component.push_back(v);
      for (int w : transpose[v]) {
          if (w >= 0 && w < static_cast<int>(transpose.size()) && !visited[w]) {
              dfsSecondPass(transpose, w, visited, component);
          }
      }
  }
  \<close>
\<close>

function dfsSecondPass ::
    "Graph \<Rightarrow> int \<Rightarrow> bool list \<times> int list \<Rightarrow> (bool list \<times> int list) option"
  and dfsSecondPass_loop ::
    "Graph \<Rightarrow> int list \<Rightarrow> bool list \<times> int list \<Rightarrow> (bool list \<times> int list) option"
where
  "dfsSecondPass transposed v (visited, component) =
     (if 0 \<le> v \<and> nat v < length visited \<and> nat v < length transposed then
        dfsSecondPass_loop transposed (transposed ! nat v)
          (visited[nat v := True], component @ [v])
      else None)"
| "dfsSecondPass_loop transposed [] s = Some s"
| "dfsSecondPass_loop transposed (w # ws) (visited, component) =
     (if 0 \<le> w \<and> w < int (length transposed) then
        (if nat w < length visited then
           (if \<not> visited ! nat w then
              (case dfsSecondPass transposed w (visited, component) of
                 None \<Rightarrow> None
               | Some s' \<Rightarrow> dfsSecondPass_loop transposed ws s')
            else dfsSecondPass_loop transposed ws (visited, component))
         else None)
      else dfsSecondPass_loop transposed ws (visited, component))"
  by pat_completeness auto

lemma dfsSecondPass_dom_mono:
  "dfsSecondPass_dfsSecondPass_loop_dom (Inl (g, v, s)) \<Longrightarrow>
     (\<forall>s'. dfsSecondPass g v s = Some s' \<longrightarrow>
        unvisited_count (fst s') \<le> unvisited_count (fst s))"
  "dfsSecondPass_dfsSecondPass_loop_dom (Inr (g, ws, s)) \<Longrightarrow>
     (\<forall>s'. dfsSecondPass_loop g ws s = Some s' \<longrightarrow>
        unvisited_count (fst s') \<le> unvisited_count (fst s))"
proof (induction g v s and g ws s rule: dfsSecondPass_dfsSecondPass_loop.pinduct)
  case (1 transposed v visited component)
  show ?case
  proof (intro allI impI)
    fix s' assume a: "dfsSecondPass transposed v (visited, component) = Some s'"
    from a 1(1) have c: "0 \<le> v \<and> nat v < length visited \<and> nat v < length transposed"
      by (simp add: dfsSecondPass.psimps split: if_splits)
    from a 1(1) c have
      "dfsSecondPass_loop transposed (transposed ! nat v)
         (visited[nat v := True], component @ [v]) = Some s'"
      by (simp add: dfsSecondPass.psimps)
    with 1(2)[OF c]
    have "unvisited_count (fst s') \<le> unvisited_count (visited[nat v := True])"
      by simp
    also have "\<dots> \<le> unvisited_count visited"
      by (rule unvisited_count_mark_le)
    finally show "unvisited_count (fst s') \<le> unvisited_count (fst (visited, component))"
      by simp
  qed
next
  case (2 transposed s)
  then show ?case by (simp add: dfsSecondPass_loop.psimps)
next
  case (3 transposed w ws visited component)
  show ?case
  proof (intro allI impI)
    fix s' assume a: "dfsSecondPass_loop transposed (w # ws) (visited, component) = Some s'"
    show "unvisited_count (fst s') \<le> unvisited_count (fst (visited, component))"
    proof (cases "0 \<le> w \<and> w < int (length transposed)")
      case False
      with a 3(1) have "dfsSecondPass_loop transposed ws (visited, component) = Some s'"
        by (simp add: dfsSecondPass_loop.psimps)
      with 3(5)[OF False] show ?thesis by simp
    next
      case r: True
      show ?thesis
      proof (cases "nat w < length visited")
        case False
        with a 3(1) r show ?thesis by (simp add: dfsSecondPass_loop.psimps)
      next
        case l: True
        show ?thesis
        proof (cases "visited ! nat w")
          case True
          with a 3(1) r l
          have "dfsSecondPass_loop transposed ws (visited, component) = Some s'"
            by (simp add: dfsSecondPass_loop.psimps)
          with 3(4)[OF r l] True show ?thesis by simp
        next
          case False
          with a 3(1) r l obtain s1 where
            d: "dfsSecondPass transposed w (visited, component) = Some s1"
            and l2: "dfsSecondPass_loop transposed ws s1 = Some s'"
            by (auto simp: dfsSecondPass_loop.psimps split: option.splits)
          from 3(2)[OF r l False] d
          have "unvisited_count (fst s1) \<le> unvisited_count visited"
            by simp
          moreover from 3(3)[OF r l False d] l2
          have "unvisited_count (fst s') \<le> unvisited_count (fst s1)" by simp
          ultimately show ?thesis by simp
        qed
      qed
    qed
  qed
qed

lemma dfsSecondPass_terminates: "All dfsSecondPass_dfsSecondPass_loop_dom"
proof (relation "inv_image (less_than <*lex*> less_than <*lex*> less_than)
    (\<lambda>x. case x of
        Inl (g, v, visited, component) \<Rightarrow>
          (unvisited_count (visited[nat v := True]), Suc 0, 0)
      | Inr (g, ws, visited, component) \<Rightarrow> (unvisited_count visited, 0, length ws))",
    goal_cases)
  case 1
  then show ?case by (intro wf_inv_image wf_lex_prod wf_less_than)
next
  case (2 transposed v visited component)
  then show ?case by simp
next
  case (3 transposed w ws visited component)
  then show ?case by (simp add: unvisited_count_mark_less)
next
  case (4 transposed w ws visited component x2)
  from dfsSecondPass_dom_mono(1)[OF 4(5)] 4(4)
  have "unvisited_count (fst x2) \<le> unvisited_count visited" by simp
  then show ?case by (cases x2) auto
next
  case (5 transposed w ws visited component)
  then show ?case by simp
next
  case (6 transposed w ws visited component)
  then show ?case by simp
qed

termination dfsSecondPass
  by (rule dfsSecondPass_terminates)

subsection \<open>The three loops of \<^verbatim>\<open>findSCCs\<close>\<close>

text \<open>
  The root loop of the first pass, over \<open>v = 0, \<dots>, n - 1\<close>:
  \<^verbatim>\<open>
  for (int v = 0; v < n; ++v) {
      if (!visited[v]) { dfsFirstPass(graph, v, visited, order); }
  }
  \<close>
\<close>

fun firstPass_roots ::
    "Graph \<Rightarrow> int list \<Rightarrow> bool list \<times> int list \<Rightarrow> (bool list \<times> int list) option"
where
  "firstPass_roots graph [] s = Some s"
| "firstPass_roots graph (v # vs) (visited, order) =
     (if 0 \<le> v \<and> nat v < length visited then
        (if \<not> visited ! nat v then
           (case dfsFirstPass graph v (visited, order) of
              None \<Rightarrow> None
            | Some s' \<Rightarrow> firstPass_roots graph vs s')
         else firstPass_roots graph vs (visited, order))
      else None)"

text \<open>
  The construction of the transpose graph:
  \<^verbatim>\<open>
  Graph transpose(n);
  for (int v = 0; v < n; ++v) {
      for (int w : graph[v]) {
          if (w >= 0 && w < n) { transpose[w].push_back(v); }
      }
  }
  \<close>
  \<open>buildTranspose_inner\<close> is the inner loop over the rest \<open>ws\<close> of \<^verbatim>\<open>graph[v]\<close>,
  \<open>buildTranspose_outer\<close> the outer loop over the remaining values \<open>vs\<close> of \<open>v\<close>.
\<close>

fun buildTranspose_inner :: "nat \<Rightarrow> int \<Rightarrow> int list \<Rightarrow> Graph \<Rightarrow> Graph option" where
  "buildTranspose_inner n v [] transposed = Some transposed"
| "buildTranspose_inner n v (w # ws) transposed =
     (if 0 \<le> w \<and> w < int n then
        (if nat w < length transposed then
           buildTranspose_inner n v ws (transposed[nat w := transposed ! nat w @ [v]])
         else None)
      else buildTranspose_inner n v ws transposed)"

fun buildTranspose_outer :: "Graph \<Rightarrow> int list \<Rightarrow> Graph \<Rightarrow> Graph option" where
  "buildTranspose_outer graph [] transposed = Some transposed"
| "buildTranspose_outer graph (v # vs) transposed =
     (if 0 \<le> v \<and> nat v < length graph then
        (case buildTranspose_inner (length graph) v (graph ! nat v) transposed of
           None \<Rightarrow> None
         | Some transposed' \<Rightarrow> buildTranspose_outer graph vs transposed')
      else None)"

definition buildTranspose :: "Graph \<Rightarrow> Graph option" where
  "buildTranspose graph =
     buildTranspose_outer graph (map int [0..<length graph]) (replicate (length graph) [])"

text \<open>
  The root loop of the second pass, over \<open>i = n - 1, \<dots>, 0\<close>:
  \<^verbatim>\<open>
  for (int i = n - 1; i >= 0; --i) {
      int v = order[i];
      if (!visited[v]) {
          std::vector<int> component;
          dfsSecondPass(transpose, v, visited, component);
          components.push_back(std::move(component));
      }
  }
  \<close>
\<close>

fun secondPass_roots ::
    "Graph \<Rightarrow> int list \<Rightarrow> int list \<Rightarrow> bool list \<times> Components \<Rightarrow>
     (bool list \<times> Components) option"
where
  "secondPass_roots transposed order [] s = Some s"
| "secondPass_roots transposed order (i # is) (visited, components) =
     (if 0 \<le> i \<and> nat i < length order then
        (let v = order ! nat i in
         if 0 \<le> v \<and> nat v < length visited then
           (if \<not> visited ! nat v then
              (case dfsSecondPass transposed v (visited, []) of
                 None \<Rightarrow> None
               | Some (visited', component) \<Rightarrow>
                   secondPass_roots transposed order is
                     (visited', components @ [component]))
            else secondPass_roots transposed order is (visited, components))
         else None)
      else None)"

subsection \<open>\<^verbatim>\<open>findSCCs\<close> and \<^verbatim>\<open>countSCCs\<close>\<close>

text \<open>The first pass as \<^verbatim>\<open>findSCCs\<close> runs it: all nodes unvisited, \<^verbatim>\<open>order\<close> empty.\<close>

definition firstPass :: "Graph \<Rightarrow> (bool list \<times> int list) option" where
  "firstPass graph =
     firstPass_roots graph (map int [0..<length graph])
       (replicate (length graph) False, [])"

text \<open>
  \<^verbatim>\<open>std::fill(visited.begin(), visited.end(), false)\<close> overwrites every slot of the
  first pass's array: \<open>map (\<lambda>_. False) visited\<close>.
\<close>

definition findSCCs :: "Graph \<Rightarrow> Components option" where
  "findSCCs graph =
     (let n = length graph in
      if n = 0 then Some []
      else
        (case firstPass graph of
           None \<Rightarrow> None
         | Some (visited, order) \<Rightarrow>
             (case buildTranspose graph of
                None \<Rightarrow> None
              | Some transposed \<Rightarrow>
                  (case secondPass_roots transposed order (rev (map int [0..<n]))
                          (map (\<lambda>_. False) visited, []) of
                     None \<Rightarrow> None
                   | Some (visited', components) \<Rightarrow> Some components))))"

definition countSCCs :: "Graph \<Rightarrow> int option" where
  "countSCCs graph =
     (case findSCCs graph of
        None \<Rightarrow> None
      | Some components \<Rightarrow> Some (int (length components)))"

subsection \<open>Graph notions of the specification\<close>

text \<open>
  Nodes are the indices \<open>[0, n)\<close>; an edge \<open>(v, w)\<close> is an entry \<open>w\<close> of the adjacency
  list of \<open>v\<close> with \<open>w\<close> in \<open>[0, n)\<close>; reachability is the reflexive transitive closure.
\<close>

definition nodes :: "Graph \<Rightarrow> int set" where
  "nodes graph = {v. 0 \<le> v \<and> v < int (length graph)}"

definition edges :: "Graph \<Rightarrow> (int \<times> int) set" where
  "edges graph = {(v, w). v \<in> nodes graph \<and> w \<in> nodes graph \<and> w \<in> set (graph ! nat v)}"

definition reachable :: "Graph \<Rightarrow> int \<Rightarrow> int \<Rightarrow> bool" where
  "reachable graph u v \<longleftrightarrow> (u, v) \<in> (edges graph)\<^sup>*"

subsection \<open>The finish-order pass in the words of the specification\<close>

text \<open>
  Specification, section 4.1: ``for each node v from 0 to n-1, if not yet visited, run
  a depth-first traversal from v: mark v visited; recurse into every out-neighbor w of
  v that is in range and unvisited; after all neighbors are processed, append v to
  order.'' The relations below say this over a set of visited nodes, with no array and
  no failure: \<open>spec_traverse\<close> is the traversal from \<open>v\<close>, \<open>spec_neighbours\<close> goes
  through the out-neighbours of a node in the order of its adjacency list,
  \<open>spec_roots\<close> goes through the roots, and \<open>spec_finish_order\<close> is the pass from
  nothing visited over the roots \<open>0, \<dots>, n - 1\<close>. They are compared with the functions
  of the source in claim C4.
\<close>

inductive spec_traverse :: "Graph \<Rightarrow> int \<Rightarrow> int set \<times> int list \<Rightarrow> int set \<times> int list \<Rightarrow> bool"
  and spec_neighbours ::
    "Graph \<Rightarrow> int list \<Rightarrow> int set \<times> int list \<Rightarrow> int set \<times> int list \<Rightarrow> bool"
  for graph :: Graph
where
  "spec_neighbours graph (graph ! nat v) (insert v marked, order) (marked', order') \<Longrightarrow>
   spec_traverse graph v (marked, order) (marked', order' @ [v])"
| "spec_neighbours graph [] s s"
| "w \<in> nodes graph \<Longrightarrow> w \<notin> marked \<Longrightarrow>
   spec_traverse graph w (marked, order) s' \<Longrightarrow> spec_neighbours graph ws s' s'' \<Longrightarrow>
   spec_neighbours graph (w # ws) (marked, order) s''"
| "w \<notin> nodes graph \<or> w \<in> marked \<Longrightarrow>
   spec_neighbours graph ws (marked, order) s' \<Longrightarrow>
   spec_neighbours graph (w # ws) (marked, order) s'"

inductive spec_roots ::
    "Graph \<Rightarrow> int list \<Rightarrow> int set \<times> int list \<Rightarrow> int set \<times> int list \<Rightarrow> bool"
  for graph :: Graph
where
  "spec_roots graph [] s s"
| "v \<notin> marked \<Longrightarrow>
   spec_traverse graph v (marked, order) s' \<Longrightarrow> spec_roots graph vs s' s'' \<Longrightarrow>
   spec_roots graph (v # vs) (marked, order) s''"
| "v \<in> marked \<Longrightarrow>
   spec_roots graph vs (marked, order) s' \<Longrightarrow>
   spec_roots graph (v # vs) (marked, order) s'"

definition spec_finish_order :: "Graph \<Rightarrow> int list \<Rightarrow> bool" where
  "spec_finish_order graph order \<longleftrightarrow>
     (\<exists>marked. spec_roots graph (map int [0..<length graph]) ({}, []) (marked, order))"

text \<open>
  \<open>least_reaching graph r x\<close>: \<open>r\<close> is the least node that reaches \<open>x\<close>. When the roots
  are taken in ascending order, this is the root of the traversal that explores \<open>x\<close>.
\<close>

definition least_reaching :: "Graph \<Rightarrow> int \<Rightarrow> int \<Rightarrow> bool" where
  "least_reaching graph r x \<longleftrightarrow>
     r \<in> nodes graph \<and> reachable graph r x \<and>
     (\<forall>u\<in>nodes graph. reachable graph u x \<longrightarrow> r \<le> u)"

subsection \<open>Notions used in the proofs\<close>

text \<open>
  A depth-first traversal started with a set \<open>V\<close> of nodes already marked explores
  the paths none of whose nodes is in \<open>V\<close>: the edges of \<open>avoiding E V\<close>.
\<close>

definition avoiding :: "('a \<times> 'a) set \<Rightarrow> 'a set \<Rightarrow> ('a \<times> 'a) set" where
  "avoiding E V = {(a, b). (a, b) \<in> E \<and> a \<notin> V \<and> b \<notin> V}"

text \<open>\<open>later xs b c\<close>: \<open>c\<close> stands in \<open>xs\<close> at or after the first occurrence of \<open>b\<close>.\<close>

definition later :: "'a list \<Rightarrow> 'a \<Rightarrow> 'a \<Rightarrow> bool" where
  "later xs b c \<longleftrightarrow> c \<in> set (dropWhile (\<lambda>x. x \<noteq> b) xs)"

text \<open>
  The property of a finishing order that Kosaraju's algorithm rests on: whatever a node
  \<open>a\<close> reaches is finished no later than some node of the component of \<open>a\<close>.
\<close>

definition finish_ok :: "('a \<times> 'a) set \<Rightarrow> 'a set \<Rightarrow> 'a list \<Rightarrow> bool" where
  "finish_ok E V xs \<longleftrightarrow>
     (\<forall>a b. a \<in> set xs \<and> b \<in> set xs \<and> (a, b) \<in> (avoiding E V)\<^sup>* \<longrightarrow>
        (\<exists>c. later xs b c \<and> (a, c) \<in> (avoiding E V)\<^sup>* \<and> (c, a) \<in> (avoiding E V)\<^sup>*))"

text \<open>The set of marked nodes of a \<^verbatim>\<open>visited\<close> array.\<close>

definition visited_set :: "bool list \<Rightarrow> int set" where
  "visited_set visited = {v. 0 \<le> v \<and> nat v < length visited \<and> visited ! nat v}"

text \<open>
  \<open>explored E S visited visited' new\<close>: started from the sources \<open>S\<close> with the marks
  \<open>visited\<close>, a traversal ends with the marks \<open>visited'\<close> and has appended \<open>new\<close>,
  which lists, each once, the nodes that the unmarked sources reach by paths of
  unmarked nodes.
\<close>

definition explored ::
    "(int \<times> int) set \<Rightarrow> int set \<Rightarrow> bool list \<Rightarrow> bool list \<Rightarrow> int list \<Rightarrow> bool" where
  "explored E S visited visited' new \<longleftrightarrow>
     length visited' = length visited \<and>
     visited_set visited' = visited_set visited \<union> set new \<and>
     distinct new \<and>
     set new = (avoiding E (visited_set visited))\<^sup>* `` (S - visited_set visited)"

text \<open>The nodes mutually reachable with \<open>r\<close>.\<close>

definition scc :: "('a \<times> 'a) set \<Rightarrow> 'a \<Rightarrow> 'a set" where
  "scc E r = {y. (r, y) \<in> E\<^sup>* \<and> (y, r) \<in> E\<^sup>*}"

text \<open>
  The result of a first-pass traversal from the sources \<open>S\<close>, begun in state \<open>s\<close>: it
  returns, \<^verbatim>\<open>order\<close> has grown by the explored nodes, in a good finishing order.
\<close>

definition first_post ::
    "Graph \<Rightarrow> int set \<Rightarrow> bool list \<times> int list \<Rightarrow> (bool list \<times> int list) option \<Rightarrow> bool"
where
  "first_post g S s r \<longleftrightarrow>
     (\<exists>visited' new. r = Some (visited', snd s @ new) \<and>
        explored (edges g) S (fst s) visited' new \<and>
        finish_ok (edges g) (visited_set (fst s)) new)"

definition second_post ::
    "Graph \<Rightarrow> int set \<Rightarrow> bool list \<times> int list \<Rightarrow> (bool list \<times> int list) option \<Rightarrow> bool"
where
  "second_post g S s r \<longleftrightarrow>
     (\<exists>visited' new. r = Some (visited', snd s @ new) \<and>
        explored (edges g) S (fst s) visited' new)"

text \<open>
  The invariant of the second pass's root loop: the components emitted so far list the
  visited nodes, each once, and each is the strongly connected component of its first
  node.
\<close>

definition sccs_inv :: "Graph \<Rightarrow> bool list \<times> Components \<Rightarrow> bool" where
  "sccs_inv g s \<longleftrightarrow>
     length (fst s) = length g \<and>
     visited_set (fst s) = set (concat (snd s)) \<and>
     distinct (concat (snd s)) \<and>
     (\<forall>C\<in>set (snd s). C \<noteq> [] \<and> set C = scc (edges g) (hd C))"

text \<open>
  \<open>root_blocks g vs new\<close>: every node of \<open>new\<close> stands at or before the least node
  that reaches it, which is one of the roots \<open>vs\<close>, and nodes whose least reaching
  nodes differ stand in the order of these.
\<close>

definition root_blocks :: "Graph \<Rightarrow> int list \<Rightarrow> int list \<Rightarrow> bool" where
  "root_blocks g vs new \<longleftrightarrow>
     (\<forall>x\<in>set new. \<exists>r\<in>set vs. least_reaching g r x \<and> later new x r) \<and>
     (\<forall>a\<in>set new. \<forall>b\<in>set new. \<forall>ra rb.
        least_reaching g ra a \<and> least_reaching g rb b \<and> ra < rb \<longrightarrow> later new a b)"

text \<open>The graph with every edge target outside \<open>[0, n)\<close> removed from its adjacency lists.\<close>

definition dropOutOfRange :: "Graph \<Rightarrow> Graph" where
  "dropOutOfRange graph = map (filter (\<lambda>w. 0 \<le> w \<and> w < int (length graph))) graph"

section \<open>Reachability that avoids the visited nodes\<close>

lemma avoiding_mono: "V \<subseteq> V' \<Longrightarrow> avoiding E V' \<subseteq> avoiding E V"
  by (auto simp: avoiding_def)

lemma avoiding_rtrancl_mono:
  "V \<subseteq> V' \<Longrightarrow> (a, b) \<in> (avoiding E V')\<^sup>* \<Longrightarrow> (a, b) \<in> (avoiding E V)\<^sup>*"
  using rtrancl_mono[OF avoiding_mono] by blast

lemma avoiding_empty [simp]: "avoiding E {} = E"
  by (simp add: avoiding_def)

lemma avoiding_target:
  "(a, b) \<in> (avoiding E V)\<^sup>* \<Longrightarrow> a \<notin> V \<Longrightarrow> b \<notin> V"
  by (induction rule: rtrancl_induct) (auto simp: avoiding_def)

lemma avoiding_split:
  assumes closed: "\<And>a b. a \<in> N \<Longrightarrow> (a, b) \<in> avoiding E V \<Longrightarrow> b \<in> N"
    and path: "(x, y) \<in> (avoiding E V)\<^sup>*"
  shows "(x, y) \<in> (avoiding E (V \<union> N))\<^sup>* \<or> y \<in> N"
  using path
proof (induction rule: rtrancl_induct)
  case base
  then show ?case by simp
next
  case (step y z)
  show ?case
  proof (cases "y \<in> N \<or> z \<in> N")
    case True
    with closed step.hyps(2) show ?thesis by blast
  next
    case False
    with step.IH have "(x, y) \<in> (avoiding E (V \<union> N))\<^sup>*" by simp
    moreover from False step.hyps(2) have "(y, z) \<in> avoiding E (V \<union> N)"
      by (simp add: avoiding_def)
    ultimately show ?thesis by (blast intro: rtrancl_into_rtrancl)
  qed
qed

lemma avoiding_through:
  assumes "(a, b) \<in> (avoiding E V)\<^sup>*"
  shows "(a, b) \<in> (avoiding E (insert v V))\<^sup>* \<or> (a, v) \<in> (avoiding E V)\<^sup>*"
  using assms
proof (induction rule: rtrancl_induct)
  case base
  then show ?case by simp
next
  case (step y z)
  show ?case
  proof (cases "y = v \<or> z = v")
    case True
    with step.hyps show ?thesis by (auto intro: rtrancl_into_rtrancl)
  next
    case False
    with step.hyps(2) have "(y, z) \<in> avoiding E (insert v V)"
      by (simp add: avoiding_def)
    with step.IH show ?thesis by (blast intro: rtrancl_into_rtrancl)
  qed
qed

lemma reach_root:
  assumes "v \<notin> V"
  shows "(avoiding E V)\<^sup>* `` {v} =
         insert v ((avoiding E (insert v V))\<^sup>* `` (E `` {v} - insert v V))"
    (is "?L = insert v ?N")
proof (intro equalityI subsetI)
  fix y assume "y \<in> ?L"
  then have "(v, y) \<in> (avoiding E V)\<^sup>*" by simp
  then show "y \<in> insert v ?N"
  proof (induction rule: rtrancl_induct)
    case base
    then show ?case by simp
  next
    case (step y z)
    show ?case
    proof (cases "z = v")
      case True
      then show ?thesis by simp
    next
      case zv: False
      from step.hyps(2) have e: "(y, z) \<in> E" "z \<notin> V" "y \<notin> V"
        by (simp_all add: avoiding_def)
      show ?thesis
      proof (cases "y = v")
        case True
        with e zv have "z \<in> E `` {v} - insert v V" by auto
        then have "z \<in> ?N" by blast
        then show ?thesis by simp
      next
        case False
        with step.IH obtain w where w: "w \<in> E `` {v} - insert v V"
          and p: "(w, y) \<in> (avoiding E (insert v V))\<^sup>*" by auto
        from e zv False have "(y, z) \<in> avoiding E (insert v V)"
          by (simp add: avoiding_def)
        with p have "(w, z) \<in> (avoiding E (insert v V))\<^sup>*"
          by (rule rtrancl_into_rtrancl)
        with w have "z \<in> ?N" by blast
        then show ?thesis by simp
      qed
    qed
  qed
next
  fix y assume "y \<in> insert v ?N"
  then consider "y = v" | "y \<in> ?N" by blast
  then show "y \<in> ?L"
  proof cases
    case 1
    then show ?thesis by simp
  next
    case 2
    then obtain w where w: "w \<in> E `` {v} - insert v V"
      and p: "(w, y) \<in> (avoiding E (insert v V))\<^sup>*" by auto
    from w assms have "(v, w) \<in> avoiding E V" by (simp add: avoiding_def)
    moreover from p have "(w, y) \<in> (avoiding E V)\<^sup>*"
      by (rule avoiding_rtrancl_mono[rotated]) blast
    ultimately have "(v, y) \<in> (avoiding E V)\<^sup>*"
      by (rule converse_rtrancl_into_rtrancl)
    then show ?thesis by simp
  qed
qed

lemma reach_seq:
  assumes "w \<notin> V" and N1: "N1 = (avoiding E V)\<^sup>* `` {w}"
  shows "(avoiding E V)\<^sup>* `` (insert w S - V) =
         N1 \<union> (avoiding E (V \<union> N1))\<^sup>* `` (S - (V \<union> N1))"
    (is "?L = N1 \<union> ?N2")
proof (intro equalityI subsetI)
  fix y assume "y \<in> ?L"
  then obtain x where x: "x \<in> insert w S - V" and p: "(x, y) \<in> (avoiding E V)\<^sup>*"
    by auto
  have closed: "\<And>a b. a \<in> N1 \<Longrightarrow> (a, b) \<in> avoiding E V \<Longrightarrow> b \<in> N1"
    unfolding N1 by (auto intro: rtrancl_into_rtrancl)
  show "y \<in> N1 \<union> ?N2"
  proof (cases "x \<in> N1")
    case True
    with p have "y \<in> N1" unfolding N1 by (auto intro: rtrancl_trans)
    then show ?thesis by simp
  next
    case False
    with x N1 have xs: "x \<in> S - (V \<union> N1)" by auto
    have "(x, y) \<in> (avoiding E (V \<union> N1))\<^sup>* \<or> y \<in> N1"
      by (rule avoiding_split[OF _ p]) (rule closed)
    with xs show ?thesis by blast
  qed
next
  fix y assume "y \<in> N1 \<union> ?N2"
  then consider "y \<in> N1" | "y \<in> ?N2" by blast
  then show "y \<in> ?L"
  proof cases
    case 1
    with assms show ?thesis by auto
  next
    case 2
    then obtain x where x: "x \<in> S - (V \<union> N1)"
      and p: "(x, y) \<in> (avoiding E (V \<union> N1))\<^sup>*" by auto
    from p have "(x, y) \<in> (avoiding E V)\<^sup>*"
      by (rule avoiding_rtrancl_mono[rotated]) blast
    with x show ?thesis by auto
  qed
qed

subsection \<open>Positions in a list\<close>

lemma dropWhile_skip:
  "b \<notin> set xs \<Longrightarrow> dropWhile (\<lambda>x. x \<noteq> b) (xs @ ys) = dropWhile (\<lambda>x. x \<noteq> b) ys"
  by (induction xs) auto

lemma later_iff:
  "later xs b c \<longleftrightarrow> (\<exists>ys zs. xs = ys @ b # zs \<and> b \<notin> set ys \<and> c \<in> set (b # zs))"
proof
  assume l: "later xs b c"
  have "b \<in> set xs"
  proof (rule ccontr)
    assume "b \<notin> set xs"
    then have "dropWhile (\<lambda>x. x \<noteq> b) xs = []" by (induction xs) auto
    with l show False by (simp add: later_def)
  qed
  then obtain ys zs where s: "xs = ys @ b # zs" "b \<notin> set ys"
    by (auto dest: split_list_first)
  then have "dropWhile (\<lambda>x. x \<noteq> b) xs = b # zs"
    by (simp add: dropWhile_skip)
  with l s show "\<exists>ys zs. xs = ys @ b # zs \<and> b \<notin> set ys \<and> c \<in> set (b # zs)"
    unfolding later_def by metis
next
  assume "\<exists>ys zs. xs = ys @ b # zs \<and> b \<notin> set ys \<and> c \<in> set (b # zs)"
  then obtain ys zs where s: "xs = ys @ b # zs" "b \<notin> set ys" "c \<in> set (b # zs)"
    by blast
  then have "dropWhile (\<lambda>x. x \<noteq> b) xs = b # zs"
    by (simp add: dropWhile_skip)
  with s show "later xs b c" by (simp add: later_def)
qed

lemma later_in_set: "later xs b c \<Longrightarrow> b \<in> set xs \<and> c \<in> set xs"
  by (auto simp: later_iff)

lemma later_refl: "b \<in> set xs \<Longrightarrow> later xs b b"
proof -
  assume "b \<in> set xs"
  then obtain ys zs where "xs = ys @ b # zs \<and> b \<notin> set ys \<and> b \<in> set (b # zs)"
    by (auto dest: split_list_first)
  then show ?thesis unfolding later_iff by blast
qed

lemma later_append1: "later xs b c \<Longrightarrow> later (xs @ ys) b c"
proof -
  assume "later xs b c"
  then obtain us zs where "xs = us @ b # zs" "b \<notin> set us" "c \<in> set (b # zs)"
    unfolding later_iff by blast
  then have "xs @ ys = us @ b # (zs @ ys) \<and> b \<notin> set us \<and> c \<in> set (b # (zs @ ys))"
    by auto
  then show ?thesis unfolding later_iff by blast
qed

lemma later_append2: "b \<notin> set xs \<Longrightarrow> later ys b c \<Longrightarrow> later (xs @ ys) b c"
  by (simp add: later_def dropWhile_skip)

lemma later_append_right: "b \<in> set xs \<Longrightarrow> c \<in> set ys \<Longrightarrow> later (xs @ ys) b c"
proof -
  assume b: "b \<in> set xs" and c: "c \<in> set ys"
  from b obtain us zs where "xs = us @ b # zs" "b \<notin> set us"
    by (auto dest: split_list_first)
  with c have "xs @ ys = us @ b # (zs @ ys) \<and> b \<notin> set us \<and> c \<in> set (b # (zs @ ys))"
    by auto
  then show ?thesis unfolding later_iff by blast
qed

lemma later_last: "b \<in> set (xs @ [v]) \<Longrightarrow> later (xs @ [v]) b v"
proof (cases "b \<in> set xs")
  case True
  then show ?thesis by (simp add: later_append_right)
next
  case False
  assume "b \<in> set (xs @ [v])"
  with False have "b = v" by simp
  with False show ?thesis by (simp add: later_def dropWhile_skip)
qed

lemma later_split:
  "r \<notin> set pre \<Longrightarrow> later (pre @ r # post) r c \<longleftrightarrow> c = r \<or> c \<in> set post"
  by (simp add: later_def dropWhile_skip)

subsection \<open>The finishing order of a traversal\<close>

lemma finish_ok_post:
  assumes v: "v \<notin> V"
    and new: "set new = (avoiding E (insert v V))\<^sup>* `` (E `` {v} - insert v V)"
    and ok: "finish_ok E (insert v V) new"
  shows "finish_ok E V (new @ [v])"
  unfolding finish_ok_def
proof (intro allI impI)
  fix a b
  assume "a \<in> set (new @ [v]) \<and> b \<in> set (new @ [v]) \<and> (a, b) \<in> (avoiding E V)\<^sup>*"
  then have a: "a \<in> set (new @ [v])" and b: "b \<in> set (new @ [v])"
    and p: "(a, b) \<in> (avoiding E V)\<^sup>*" by simp_all
  have all: "set (new @ [v]) = (avoiding E V)\<^sup>* `` {v}"
    using reach_root[OF v, of E] new by simp
  show "\<exists>c. later (new @ [v]) b c \<and> (a, c) \<in> (avoiding E V)\<^sup>* \<and> (c, a) \<in> (avoiding E V)\<^sup>*"
  proof (cases "(a, v) \<in> (avoiding E V)\<^sup>*")
    case True
    moreover from a all have "(v, a) \<in> (avoiding E V)\<^sup>*" by blast
    moreover from b have "later (new @ [v]) b v" by (rule later_last)
    ultimately show ?thesis by blast
  next
    case False
    with p have "a \<noteq> v" "b \<noteq> v" by auto
    with a b have a': "a \<in> set new" and b': "b \<in> set new" by simp_all
    from avoiding_through[OF p, of v] False
    have "(a, b) \<in> (avoiding E (insert v V))\<^sup>*" by simp
    with ok a' b' obtain c where c: "later new b c"
      "(a, c) \<in> (avoiding E (insert v V))\<^sup>*" "(c, a) \<in> (avoiding E (insert v V))\<^sup>*"
      unfolding finish_ok_def by blast
    have "V \<subseteq> insert v V" by blast
    from c(1) avoiding_rtrancl_mono[OF this c(2)] avoiding_rtrancl_mono[OF this c(3)]
    show ?thesis by (blast intro: later_append1)
  qed
qed

lemma finish_ok_seq:
  assumes closed1: "\<And>a b. a \<in> set new1 \<Longrightarrow> (a, b) \<in> (avoiding E V)\<^sup>* \<Longrightarrow> b \<in> set new1"
    and closed2: "\<And>a b. a \<in> set new2 \<Longrightarrow> (a, b) \<in> (avoiding E (V \<union> set new1))\<^sup>* \<Longrightarrow>
                   b \<in> set new2"
    and disj: "set new1 \<inter> set new2 = {}"
    and ok1: "finish_ok E V new1"
    and ok2: "finish_ok E (V \<union> set new1) new2"
  shows "finish_ok E V (new1 @ new2)"
  unfolding finish_ok_def
proof (intro allI impI)
  fix a b
  assume "a \<in> set (new1 @ new2) \<and> b \<in> set (new1 @ new2) \<and> (a, b) \<in> (avoiding E V)\<^sup>*"
  then have a: "a \<in> set new1 \<or> a \<in> set new2" and p: "(a, b) \<in> (avoiding E V)\<^sup>*"
    by simp_all
  have sub: "V \<subseteq> V \<union> set new1" by blast
  show "\<exists>c. later (new1 @ new2) b c \<and> (a, c) \<in> (avoiding E V)\<^sup>* \<and> (c, a) \<in> (avoiding E V)\<^sup>*"
  proof (cases "a \<in> set new1")
    case True
    with closed1 p have "b \<in> set new1" by blast
    with ok1 True p obtain c where "later new1 b c"
      "(a, c) \<in> (avoiding E V)\<^sup>*" "(c, a) \<in> (avoiding E V)\<^sup>*"
      unfolding finish_ok_def by blast
    then show ?thesis by (blast intro: later_append1)
  next
    case False
    with a have a2: "a \<in> set new2" by simp
    have step: "\<And>x y. x \<in> set new1 \<Longrightarrow> (x, y) \<in> avoiding E V \<Longrightarrow> y \<in> set new1"
      using closed1 by blast
    have "(a, b) \<in> (avoiding E (V \<union> set new1))\<^sup>* \<or> b \<in> set new1"
      by (rule avoiding_split[OF _ p]) (rule step)
    then consider "b \<in> set new1" | "(a, b) \<in> (avoiding E (V \<union> set new1))\<^sup>*" by blast
    then show ?thesis
    proof cases
      case 1
      with a2 have "later (new1 @ new2) b a" by (simp add: later_append_right)
      then show ?thesis by blast
    next
      case 2
      with closed2 a2 have b2: "b \<in> set new2" by blast
      with ok2 a2 2 obtain c where c: "later new2 b c"
        "(a, c) \<in> (avoiding E (V \<union> set new1))\<^sup>*" "(c, a) \<in> (avoiding E (V \<union> set new1))\<^sup>*"
        unfolding finish_ok_def by blast
      from b2 disj have "b \<notin> set new1" by blast
      with c(1) have "later (new1 @ new2) b c" by (simp add: later_append2)
      with avoiding_rtrancl_mono[OF sub c(2)] avoiding_rtrancl_mono[OF sub c(3)]
      show ?thesis by blast
    qed
  qed
qed

section \<open>What one traversal explores\<close>

lemma visited_set_mark:
  "0 \<le> v \<Longrightarrow> nat v < length visited \<Longrightarrow>
   visited_set (visited[nat v := True]) = insert v (visited_set visited)"
  by (auto simp: visited_set_def nth_list_update)

lemma visited_set_replicate [simp]: "visited_set (replicate n False) = {}"
  by (auto simp: visited_set_def)

lemma visited_set_fill [simp]: "visited_set (map (\<lambda>_. False) visited) = {}"
  by (auto simp: visited_set_def)

lemma visited_set_iff:
  "0 \<le> v \<Longrightarrow> nat v < length visited \<Longrightarrow> v \<in> visited_set visited \<longleftrightarrow> visited ! nat v"
  by (simp add: visited_set_def)

lemma unmarked_source: "w \<notin> V \<Longrightarrow> {w} - V = {w}"
  by blast

lemma explored_disjoint:
  assumes "explored E S visited visited' new"
  shows "set new \<inter> visited_set visited = {}"
proof -
  have "b \<notin> visited_set visited" if "b \<in> set new" for b
  proof -
    from that assms obtain a where "a \<in> S - visited_set visited"
      "(a, b) \<in> (avoiding E (visited_set visited))\<^sup>*"
      by (auto simp: explored_def)
    then show ?thesis using avoiding_target by fastforce
  qed
  then show ?thesis by blast
qed

lemma explored_closed:
  assumes "explored E S visited visited' new" and "a \<in> set new"
    and "(a, b) \<in> (avoiding E (visited_set visited))\<^sup>*"
  shows "b \<in> set new"
  using assms unfolding explored_def by (auto intro: rtrancl_trans)

lemma explored_visited:
  "explored E S visited visited' new \<Longrightarrow>
   visited_set visited' = visited_set visited \<union> set new \<and>
   length visited' = length visited \<and> distinct new"
  by (simp add: explored_def)

lemma explored_none:
  "S \<subseteq> visited_set visited \<Longrightarrow> explored E S visited visited []"
  by (auto simp: explored_def)

lemma explored_sources:
  "S - visited_set visited = S' - visited_set visited \<Longrightarrow>
   explored E S visited visited' new \<Longrightarrow> explored E S' visited visited' new"
  by (simp add: explored_def)

lemma explored_seq:
  assumes 1: "explored E {w} visited visited1 new1"
    and 2: "explored E S visited1 visited2 new2"
    and w: "w \<notin> visited_set visited"
  shows "explored E (insert w S) visited visited2 (new1 @ new2)"
proof -
  let ?V = "visited_set visited"
  from 1 w have n1: "set new1 = (avoiding E ?V)\<^sup>* `` {w}"
    by (simp add: explored_def unmarked_source)
  from 1 have v1: "visited_set visited1 = ?V \<union> set new1"
    by (simp add: explored_def)
  from 2 v1 have n2: "set new2 = (avoiding E (?V \<union> set new1))\<^sup>* `` (S - (?V \<union> set new1))"
    by (simp add: explored_def)
  from explored_disjoint[OF 2] v1 have d: "set new1 \<inter> set new2 = {}" by blast
  have "set (new1 @ new2) = (avoiding E ?V)\<^sup>* `` (insert w S - ?V)"
    using reach_seq[OF w n1, of S] n2 by simp
  moreover from 1 2 d have "distinct (new1 @ new2)" by (simp add: explored_def)
  moreover from 1 2 have "length visited2 = length visited" by (simp add: explored_def)
  moreover from 2 v1 have "visited_set visited2 = ?V \<union> set (new1 @ new2)"
    by (auto simp: explored_def)
  ultimately show ?thesis unfolding explored_def by blast
qed

lemma explored_root:
  assumes v: "0 \<le> v" "nat v < length visited" "v \<notin> visited_set visited"
    and l: "explored E (E `` {v}) (visited[nat v := True]) visited' new"
    and xs: "set xs = insert v (set new)" "distinct xs"
  shows "explored E {v} visited visited' xs"
proof -
  let ?V = "visited_set visited"
  have m: "visited_set (visited[nat v := True]) = insert v ?V"
    using v by (simp add: visited_set_mark)
  from l m have n: "set new = (avoiding E (insert v ?V))\<^sup>* `` (E `` {v} - insert v ?V)"
    by (simp add: explored_def)
  have "set xs = (avoiding E ?V)\<^sup>* `` ({v} - ?V)"
    using reach_root[OF v(3), of E] n xs(1) v(3) by (simp add: unmarked_source)
  moreover from l have "length visited' = length visited" by (simp add: explored_def)
  moreover from l m xs(1) have "visited_set visited' = ?V \<union> set xs"
    by (auto simp: explored_def)
  ultimately show ?thesis using xs(2) unfolding explored_def by blast
qed

lemma explored_root_fresh:
  assumes v: "0 \<le> v" "nat v < length visited"
    and l: "explored E S (visited[nat v := True]) visited' new"
  shows "v \<notin> set new"
  using explored_disjoint[OF l] v by (auto simp: visited_set_mark)

section \<open>The first pass\<close>

declare dfsFirstPass.simps [simp del] dfsFirstPass_loop.simps(2) [simp del]

lemma dfsFirstPass_loop_skip:
  "\<not> (0 \<le> w \<and> w < int (length g)) \<Longrightarrow>
   dfsFirstPass_loop g (w # ws) (visited, order) = dfsFirstPass_loop g ws (visited, order)"
  by (simp only: dfsFirstPass_loop.simps(2) if_False)

lemma dfsFirstPass_loop_seen:
  "0 \<le> w \<and> w < int (length g) \<Longrightarrow> nat w < length visited \<Longrightarrow> visited ! nat w \<Longrightarrow>
   dfsFirstPass_loop g (w # ws) (visited, order) = dfsFirstPass_loop g ws (visited, order)"
  by (simp add: dfsFirstPass_loop.simps(2))

lemma dfsFirstPass_loop_call:
  "0 \<le> w \<and> w < int (length g) \<Longrightarrow> nat w < length visited \<Longrightarrow> \<not> visited ! nat w \<Longrightarrow>
   dfsFirstPass g w (visited, order) = Some s1 \<Longrightarrow>
   dfsFirstPass_loop g (w # ws) (visited, order) = dfsFirstPass_loop g ws s1"
  by (simp add: dfsFirstPass_loop.simps(2))

lemma nodes_iff: "v \<in> nodes g \<longleftrightarrow> 0 \<le> v \<and> nat v < length g"
  by (auto simp: nodes_def)

lemma edges_image: "v \<in> nodes g \<Longrightarrow> edges g `` {v} = set (g ! nat v) \<inter> nodes g"
  by (auto simp: edges_def)

lemma edges_nodes: "(a, b) \<in> edges g \<Longrightarrow> a \<in> nodes g \<and> b \<in> nodes g"
  by (simp add: edges_def)

lemma first_post_skip:
  assumes "first_post g S s r" and "w \<notin> S \<longrightarrow> w \<in> visited_set (fst s)"
  shows "first_post g (insert w S) s r"
proof -
  from assms(2) have "S - visited_set (fst s) = insert w S - visited_set (fst s)"
    by blast
  with assms(1) show ?thesis
    unfolding first_post_def by (blast intro: explored_sources)
qed

lemma first_post_root:
  assumes v: "v \<in> nodes g" "length visited = length g" "v \<notin> visited_set visited"
    and l: "first_post g (set (g ! nat v) \<inter> nodes g) (visited[nat v := True], order)
              (dfsFirstPass_loop g (g ! nat v) (visited[nat v := True], order))"
  shows "first_post g {v} (visited, order) (dfsFirstPass g v (visited, order))"
proof -
  from v have r: "0 \<le> v" "nat v < length visited" "nat v < length g"
    by (simp_all add: nodes_iff)
  from l obtain visited' new where
    res: "dfsFirstPass_loop g (g ! nat v) (visited[nat v := True], order) =
            Some (visited', order @ new)"
    and e: "explored (edges g) (set (g ! nat v) \<inter> nodes g) (visited[nat v := True])
              visited' new"
    and f: "finish_ok (edges g) (visited_set (visited[nat v := True])) new"
    by (auto simp: first_post_def)
  from e v(1) have e': "explored (edges g) (edges g `` {v}) (visited[nat v := True])
      visited' new"
    by (simp add: edges_image)
  have fresh: "v \<notin> set new" using explored_root_fresh[OF r(1,2) e] .
  from e have dn: "distinct new" by (simp add: explored_def)
  have m: "visited_set (visited[nat v := True]) = insert v (visited_set visited)"
    using r by (simp add: visited_set_mark)
  have "explored (edges g) {v} visited visited' (new @ [v])"
    by (rule explored_root[OF r(1,2) v(3) e']) (use fresh dn in auto)
  moreover from e' m
  have "set new = (avoiding (edges g) (insert v (visited_set visited)))\<^sup>* ``
                    (edges g `` {v} - insert v (visited_set visited))"
    by (simp add: explored_def)
  with f m have "finish_ok (edges g) (visited_set visited) (new @ [v])"
    by (simp add: finish_ok_post[OF v(3)])
  moreover from res r
  have "dfsFirstPass g v (visited, order) = Some (visited', order @ new @ [v])"
    by (simp add: dfsFirstPass.simps)
  ultimately show ?thesis unfolding first_post_def by auto
qed

lemma first_post_seq:
  assumes 1: "first_post g {w} s (Some s1)"
    and 2: "first_post g S s1 r"
    and w: "w \<notin> visited_set (fst s)"
  shows "first_post g (insert w S) s r"
proof -
  let ?E = "edges g" and ?V = "visited_set (fst s)"
  from 1 obtain visited1 new1 where s1: "s1 = (visited1, snd s @ new1)"
    and e1: "explored ?E {w} (fst s) visited1 new1"
    and f1: "finish_ok ?E ?V new1"
    by (auto simp: first_post_def)
  from 2 s1 obtain visited2 new2 where r: "r = Some (visited2, (snd s @ new1) @ new2)"
    and e2: "explored ?E S visited1 visited2 new2"
    and f2: "finish_ok ?E (visited_set visited1) new2"
    by (auto simp: first_post_def)
  from e1 have v1: "visited_set visited1 = ?V \<union> set new1" by (simp add: explored_def)
  have d: "set new1 \<inter> set new2 = {}"
    using explored_disjoint[OF e2] v1 by blast
  have "finish_ok ?E ?V (new1 @ new2)"
  proof (rule finish_ok_seq)
    show "b \<in> set new1" if "a \<in> set new1" "(a, b) \<in> (avoiding ?E ?V)\<^sup>*" for a b
      using explored_closed[OF e1 that] .
    show "b \<in> set new2"
      if "a \<in> set new2" "(a, b) \<in> (avoiding ?E (?V \<union> set new1))\<^sup>*" for a b
      using explored_closed[OF e2 that(1)] that(2) v1 by simp
    show "set new1 \<inter> set new2 = {}" by (rule d)
    show "finish_ok ?E ?V new1" by (rule f1)
    show "finish_ok ?E (?V \<union> set new1) new2" using f2 v1 by simp
  qed
  moreover have "explored ?E (insert w S) (fst s) visited2 (new1 @ new2)"
    by (rule explored_seq[OF e1 e2 w])
  ultimately show ?thesis using r unfolding first_post_def by auto
qed

lemma first_post_length:
  "first_post g S s (Some s') \<Longrightarrow> length (fst s') = length (fst s)"
  by (auto simp: first_post_def explored_def)

lemma dfsFirstPass_spec:
  "length (fst s) = length g \<Longrightarrow> v \<in> nodes g \<Longrightarrow> v \<notin> visited_set (fst s) \<Longrightarrow>
     first_post g {v} s (dfsFirstPass g v s)"
  "length (fst s) = length g \<Longrightarrow>
     first_post g (set ws \<inter> nodes g) s (dfsFirstPass_loop g ws s)"
proof (induction g v s and g ws s rule: dfsFirstPass_dfsFirstPass_loop.induct)
  case (1 graph v visited order)
  from "1.prems" have r: "0 \<le> v \<and> nat v < length visited \<and> nat v < length graph"
    by (simp add: nodes_iff)
  from "1.prems" have "length (fst (visited[nat v := True], order)) = length graph"
    by simp
  from "1.IH"[OF r this] "1.prems" show ?case
    by (intro first_post_root) simp_all
next
  case (2 graph s)
  have "explored (edges graph) {} (fst s) (fst s) []" by (simp add: explored_none)
  moreover have "finish_ok (edges graph) (visited_set (fst s)) []"
    by (simp add: finish_ok_def)
  ultimately have "first_post graph {} s (Some (fst s, snd s @ []))"
    unfolding first_post_def by blast
  then show ?case by simp
next
  case (3 graph w ws visited order)
  from "3.prems" have len: "length visited = length graph" by simp
  show ?case
  proof (cases "0 \<le> w \<and> w < int (length graph)")
    case False
    then have "w \<notin> nodes graph" by (auto simp: nodes_def)
    then have "set (w # ws) \<inter> nodes graph = set ws \<inter> nodes graph" by simp
    with "3.IH"(4)[OF False "3.prems"] show ?thesis
      by (simp only: dfsFirstPass_loop_skip[OF False])
  next
    case r: True
    then have wn: "w \<in> nodes graph" by (auto simp: nodes_def)
    from r len have l: "nat w < length visited" by auto
    have s: "set (w # ws) \<inter> nodes graph = insert w (set ws \<inter> nodes graph)"
      using wn by simp
    show ?thesis
    proof (cases "visited ! nat w")
      case True
      then have nn: "\<not> \<not> visited ! nat w" by simp
      from True r l have "w \<in> visited_set visited" by (simp add: visited_set_def)
      with "3.IH"(3)[OF r l nn "3.prems"]
      have "first_post graph (insert w (set ws \<inter> nodes graph)) (visited, order)
              (dfsFirstPass_loop graph ws (visited, order))"
        by (intro first_post_skip) simp_all
      then show ?thesis
        by (simp only: dfsFirstPass_loop_seen[OF r l True] s)
    next
      case False
      with r l have wv: "w \<notin> visited_set visited" by (simp add: visited_set_def)
      from "3.IH"(1)[OF r l False "3.prems" wn] wv
      have d: "first_post graph {w} (visited, order) (dfsFirstPass graph w (visited, order))"
        by simp
      then obtain s1 where s1: "dfsFirstPass graph w (visited, order) = Some s1"
        by (auto simp: first_post_def)
      with d have d': "first_post graph {w} (visited, order) (Some s1)" by simp
      from first_post_length[OF d'] len have "length (fst s1) = length graph" by simp
      from "3.IH"(2)[OF r l False s1 this]
      have "first_post graph (set ws \<inter> nodes graph) s1 (dfsFirstPass_loop graph ws s1)" .
      from first_post_seq[OF d' this] wv
      have "first_post graph (insert w (set ws \<inter> nodes graph)) (visited, order)
              (dfsFirstPass_loop graph ws s1)" by simp
      then show ?thesis
        by (simp only: dfsFirstPass_loop_call[OF r l False s1] s)
    qed
  qed
qed

lemma image_int_nodes: "int ` {0..<length g} = nodes g"
proof -
  have "v \<in> int ` {0..<length g} \<longleftrightarrow> v \<in> nodes g" for v
    by (auto simp: nodes_def image_iff intro: bexI[of _ "nat v"])
  then show ?thesis by blast
qed

lemma set_upt_nodes: "set (map int [0..<length g]) = nodes g"
  by (simp add: image_int_nodes)

lemma firstPass_roots_loop:
  "length (fst s) = length g \<Longrightarrow> set vs \<subseteq> nodes g \<Longrightarrow>
   firstPass_roots g vs s = dfsFirstPass_loop g vs s"
proof (induction vs arbitrary: s)
  case Nil
  then show ?case by simp
next
  case (Cons v vs)
  obtain visited order where s: "s = (visited, order)" by (cases s)
  from Cons.prems s have len: "length visited = length g" and vn: "v \<in> nodes g"
    by simp_all
  from vn len have r: "0 \<le> v \<and> v < int (length g)" "nat v < length visited"
    by (auto simp: nodes_def)
  show ?case
  proof (cases "visited ! nat v")
    case True
    have "firstPass_roots g (v # vs) s = firstPass_roots g vs s"
      using True r s by simp
    also have "\<dots> = dfsFirstPass_loop g vs s"
      using Cons by simp
    finally show ?thesis
      by (simp only: s dfsFirstPass_loop_seen[OF r True])
  next
    case False
    with r have "v \<notin> visited_set visited" by (simp add: visited_set_def)
    with dfsFirstPass_spec(1)[of s g v] s len vn
    have d: "first_post g {v} s (dfsFirstPass g v s)" by simp
    then obtain s1 where s1: "dfsFirstPass g v s = Some s1"
      by (auto simp: first_post_def)
    with d first_post_length[of g "{v}" s s1] Cons.prems(1)
    have "length (fst s1) = length g" by simp
    with Cons have "firstPass_roots g vs s1 = dfsFirstPass_loop g vs s1" by simp
    moreover have "firstPass_roots g (v # vs) s = firstPass_roots g vs s1"
      using False r s s1 by simp
    ultimately show ?thesis
      using dfsFirstPass_loop_call[OF r False, of order s1 vs] s1 s by simp
  qed
qed

lemma edges_rtrancl_nodes:
  "(a, b) \<in> (edges g)\<^sup>* \<Longrightarrow> a \<in> nodes g \<Longrightarrow> b \<in> nodes g"
  by (induction rule: rtrancl_induct) (auto dest: edges_nodes)

text \<open>
  The first pass returns, with every node marked and \<^verbatim>\<open>order\<close> a duplicate-free
  list of all nodes in a good finishing order.
\<close>

lemma firstPass_spec:
  "\<exists>visited order. firstPass g = Some (visited, order) \<and>
     length visited = length g \<and> visited_set visited = nodes g \<and>
     distinct order \<and> set order = nodes g \<and> finish_ok (edges g) {} order"
proof -
  let ?s = "(replicate (length g) False, [] :: int list)"
  have "firstPass g = dfsFirstPass_loop g (map int [0..<length g]) ?s"
    unfolding firstPass_def by (rule firstPass_roots_loop) (simp_all add: image_int_nodes)
  moreover have "first_post g (set (map int [0..<length g]) \<inter> nodes g) ?s
      (dfsFirstPass_loop g (map int [0..<length g]) ?s)"
    by (rule dfsFirstPass_spec(2)) simp
  ultimately obtain visited order where res: "firstPass g = Some (visited, order)"
    and e: "explored (edges g) (nodes g) (replicate (length g) False) visited order"
    and f: "finish_ok (edges g) {} order"
    by (auto simp: first_post_def image_int_nodes)
  from e have "set order = (edges g)\<^sup>* `` nodes g" by (simp add: explored_def)
  also have "\<dots> = nodes g" by (auto dest: edges_rtrancl_nodes)
  finally have so: "set order = nodes g" .
  with e have "visited_set visited = nodes g" "length visited = length g" "distinct order"
    by (simp_all add: explored_def)
  with res so f show ?thesis by blast
qed

lemma dfsFirstPass_last:
  "dfsFirstPass g v (visited, order) = Some (visited', order') \<Longrightarrow>
   \<exists>xs. order' = xs @ [v]"
  by (auto simp: dfsFirstPass.simps split: if_splits option.splits)

lemma dfsFirstPass_post_order:
  assumes len: "length visited = length g" and vn: "v \<in> nodes g"
    and vv: "v \<notin> visited_set visited"
  shows "\<exists>visited' new. dfsFirstPass g v (visited, order) = Some (visited', order @ new @ [v]) \<and>
           v \<notin> set new \<and> distinct new \<and>
           set new \<subseteq> nodes g - visited_set visited \<and>
           set (new @ [v]) = (avoiding (edges g) (visited_set visited))\<^sup>* `` {v} \<and>
           (\<forall>w\<in>set (g ! nat v). w \<in> nodes g \<longrightarrow>
              w = v \<or> w \<in> visited_set visited \<or> w \<in> set new)"
proof -
  let ?V = "visited_set visited"
  from dfsFirstPass_spec(1)[of "(visited, order)" g v] assms
  obtain visited' xs where res: "dfsFirstPass g v (visited, order) = Some (visited', order @ xs)"
    and e: "explored (edges g) {v} visited visited' xs"
    by (auto simp: first_post_def)
  from dfsFirstPass_last[OF res] obtain ys where "order @ xs = ys @ [v]" by blast
  moreover from e vv have "v \<in> set xs" by (auto simp: explored_def)
  ultimately obtain new where xs: "xs = new @ [v]"
    by (cases xs rule: rev_cases) auto
  from e xs have d: "distinct new" "v \<notin> set new" by (auto simp: explored_def)
  from e vv have sx: "set xs = (avoiding (edges g) ?V)\<^sup>* `` {v}"
    by (simp add: explored_def unmarked_source)
  have "set xs \<subseteq> nodes g"
  proof
    fix y assume "y \<in> set xs"
    with sx have "(v, y) \<in> (avoiding (edges g) ?V)\<^sup>*" by simp
    then have "(v, y) \<in> (edges g)\<^sup>*"
      by (rule avoiding_rtrancl_mono[of "{}" ?V, simplified])
    then show "y \<in> nodes g" using vn by (rule edges_rtrancl_nodes)
  qed
  with explored_disjoint[OF e] xs have sub: "set new \<subseteq> nodes g - ?V" by auto
  have "w = v \<or> w \<in> ?V \<or> w \<in> set new" if "w \<in> set (g ! nat v)" "w \<in> nodes g" for w
  proof (cases "w \<in> ?V")
    case True
    then show ?thesis by simp
  next
    case False
    with that vn vv have "(v, w) \<in> avoiding (edges g) ?V"
      by (simp add: avoiding_def edges_def)
    with sx have "w \<in> set xs" by auto
    with xs show ?thesis by auto
  qed
  with res xs d sub sx show ?thesis by auto
qed

subsection \<open>The first pass and the specification's finish-order pass\<close>

text \<open>The specification's relations can be run.\<close>

lemma nodes_code [code]: "nodes g = set (map int [0..<length g])"
  by (simp add: image_int_nodes)

code_pred spec_traverse .

code_pred spec_roots .

inductive_cases spec_traverseE: "spec_traverse g v (marked, order) t"
inductive_cases spec_neighbours_NilE: "spec_neighbours g [] s t"
inductive_cases spec_neighbours_ConsE: "spec_neighbours g (w # ws) (marked, order) t"
inductive_cases spec_roots_NilE: "spec_roots g [] s t"
inductive_cases spec_roots_ConsE: "spec_roots g (v # vs) (marked, order) t"

text \<open>The specification's pass has at most one result.\<close>

lemma spec_traverse_deterministic:
  "spec_traverse g v s t \<Longrightarrow> \<forall>t'. spec_traverse g v s t' \<longrightarrow> t' = t"
  "spec_neighbours g ws s t \<Longrightarrow> \<forall>t'. spec_neighbours g ws s t' \<longrightarrow> t' = t"
proof (induction rule: spec_traverse_spec_neighbours.inducts)
  case (1 v marked order marked' order')
  show ?case
  proof (intro allI impI)
    fix t' assume "spec_traverse g v (marked, order) t'"
    then show "t' = (marked', order' @ [v])"
    proof (rule spec_traverseE)
      fix m ord
      assume t': "t' = (m, ord @ [v])"
        and "spec_neighbours g (g ! nat v) (insert v marked, order) (m, ord)"
      with 1 have "(m, ord) = (marked', order')" by blast
      with t' show ?thesis by simp
    qed
  qed
next
  case (2 s)
  show ?case
  proof (intro allI impI)
    fix t' assume "spec_neighbours g [] s t'"
    then show "t' = s" by (rule spec_neighbours_NilE)
  qed
next
  case (3 w marked order s' ws s'')
  show ?case
  proof (intro allI impI)
    fix t' assume "spec_neighbours g (w # ws) (marked, order) t'"
    then show "t' = s''"
    proof (rule spec_neighbours_ConsE)
      fix s1 assume "spec_traverse g w (marked, order) s1" "spec_neighbours g ws s1 t'"
      moreover from this(1) 3 have "s1 = s'" by blast
      ultimately show ?thesis using 3 by blast
    next
      assume "w \<in> nodes g \<longrightarrow> w \<in> marked"
      with 3 show ?thesis by simp
    qed
  qed
next
  case (4 w marked ws order s')
  show ?case
  proof (intro allI impI)
    fix t' assume "spec_neighbours g (w # ws) (marked, order) t'"
    then show "t' = s'"
    proof (rule spec_neighbours_ConsE)
      assume "w \<in> nodes g" "w \<notin> marked"
      with 4 show ?thesis by simp
    next
      assume "spec_neighbours g ws (marked, order) t'"
      with 4 show ?thesis by blast
    qed
  qed
qed

lemma spec_roots_deterministic:
  "spec_roots g vs s t \<Longrightarrow> spec_roots g vs s t' \<Longrightarrow> t' = t"
proof (induction arbitrary: t' rule: spec_roots.induct)
  case (1 s)
  from "1.prems" show ?case by (rule spec_roots_NilE)
next
  case (2 v marked order s' vs s'')
  from "2.prems" show ?case
  proof (rule spec_roots_ConsE)
    fix s1 assume a: "spec_traverse g v (marked, order) s1" "spec_roots g vs s1 t'"
    from spec_traverse_deterministic(1)[OF "2.hyps"(2)] a(1) have "s1 = s'" by blast
    with a(2) show ?thesis by (simp add: "2.IH")
  next
    assume "v \<in> marked"
    with "2.hyps"(1) show ?thesis by simp
  qed
next
  case (3 v marked vs order s')
  from "3.prems" show ?case
  proof (rule spec_roots_ConsE)
    assume "v \<notin> marked"
    with "3.hyps"(1) show ?thesis by simp
  next
    assume "spec_roots g vs (marked, order) t'"
    then show ?thesis by (rule "3.IH")
  qed
qed

lemma spec_finish_order_unique:
  "spec_finish_order g order \<Longrightarrow> spec_finish_order g order' \<Longrightarrow> order' = order"
  unfolding spec_finish_order_def by (auto dest: spec_roots_deterministic)

text \<open>
  The traversal of the source and its loop, on a \<^verbatim>\<open>visited\<close> array as long as the
  graph, do what the specification's relations say on the set of marked nodes.
\<close>

lemma dfsFirstPass_refines:
  "length (fst s) = length g \<Longrightarrow> v \<in> nodes g \<Longrightarrow> v \<notin> visited_set (fst s) \<Longrightarrow>
     \<forall>s'. dfsFirstPass g v s = Some s' \<longrightarrow>
       spec_traverse g v (visited_set (fst s), snd s) (visited_set (fst s'), snd s')"
  "length (fst s) = length g \<Longrightarrow>
     \<forall>s'. dfsFirstPass_loop g ws s = Some s' \<longrightarrow>
       spec_neighbours g ws (visited_set (fst s), snd s) (visited_set (fst s'), snd s')"
proof (induction g v s and g ws s rule: dfsFirstPass_dfsFirstPass_loop.induct)
  case (1 graph v visited order)
  from "1.prems" have r: "0 \<le> v \<and> nat v < length visited \<and> nat v < length graph"
    by (simp add: nodes_iff)
  from "1.prems" have "length (fst (visited[nat v := True], order)) = length graph"
    by simp
  note IH = "1.IH"[OF r this]
  show ?case
  proof (intro allI impI)
    fix s' assume "dfsFirstPass graph v (visited, order) = Some s'"
    with r obtain visited' order' where
      l: "dfsFirstPass_loop graph (graph ! nat v) (visited[nat v := True], order) =
            Some (visited', order')"
      and s': "s' = (visited', order' @ [v])"
      by (auto simp: dfsFirstPass.simps split: option.splits)
    from IH l have "spec_neighbours graph (graph ! nat v)
        (visited_set (visited[nat v := True]), order) (visited_set visited', order')"
      by auto
    with r have "spec_neighbours graph (graph ! nat v)
        (insert v (visited_set visited), order) (visited_set visited', order')"
      by (simp add: visited_set_mark)
    then have "spec_traverse graph v (visited_set visited, order)
        (visited_set visited', order' @ [v])"
      by (rule spec_traverse_spec_neighbours.intros(1))
    with s' show "spec_traverse graph v
        (visited_set (fst (visited, order)), snd (visited, order))
        (visited_set (fst s'), snd s')"
      by simp
  qed
next
  case (2 graph s)
  show ?case by (simp add: spec_traverse_spec_neighbours.intros(2))
next
  case (3 graph w ws visited order)
  from "3.prems" have len: "length visited = length graph" by simp
  show ?case
  proof (intro allI impI)
    fix s' assume a: "dfsFirstPass_loop graph (w # ws) (visited, order) = Some s'"
    show "spec_neighbours graph (w # ws)
        (visited_set (fst (visited, order)), snd (visited, order))
        (visited_set (fst s'), snd s')"
    proof (cases "0 \<le> w \<and> w < int (length graph)")
      case False
      then have wn: "w \<notin> nodes graph \<or> w \<in> visited_set visited" by (auto simp: nodes_def)
      from a have "dfsFirstPass_loop graph ws (visited, order) = Some s'"
        by (simp only: dfsFirstPass_loop_skip[OF False])
      with "3.IH"(4)[OF False "3.prems"]
      have "spec_neighbours graph ws (visited_set visited, order)
          (visited_set (fst s'), snd s')" by simp
      with wn show ?thesis
        by (simp add: spec_traverse_spec_neighbours.intros(4))
    next
      case r: True
      then have wn: "w \<in> nodes graph" by (auto simp: nodes_def)
      from r len have l: "nat w < length visited" by auto
      show ?thesis
      proof (cases "visited ! nat w")
        case True
        then have nn: "\<not> \<not> visited ! nat w" by simp
        from True r l have wv: "w \<notin> nodes graph \<or> w \<in> visited_set visited"
          by (simp add: visited_set_def)
        from a have "dfsFirstPass_loop graph ws (visited, order) = Some s'"
          by (simp only: dfsFirstPass_loop_seen[OF r l True])
        with "3.IH"(3)[OF r l nn "3.prems"]
        have "spec_neighbours graph ws (visited_set visited, order)
            (visited_set (fst s'), snd s')" by simp
        with wv show ?thesis
          by (simp add: spec_traverse_spec_neighbours.intros(4))
      next
        case False
        with r l have wv: "w \<notin> visited_set visited" by (simp add: visited_set_def)
        from dfsFirstPass_spec(1)[of "(visited, order)" graph w] len wn wv
        have d: "first_post graph {w} (visited, order) (dfsFirstPass graph w (visited, order))"
          by simp
        then obtain s1 where s1: "dfsFirstPass graph w (visited, order) = Some s1"
          by (auto simp: first_post_def)
        with d first_post_length[of graph "{w}" "(visited, order)" s1] len
        have len1: "length (fst s1) = length graph" by simp
        from a have l2: "dfsFirstPass_loop graph ws s1 = Some s'"
          by (simp only: dfsFirstPass_loop_call[OF r l False s1])
        from "3.IH"(1)[OF r l False "3.prems" wn] wv s1
        have t: "spec_traverse graph w (visited_set visited, order)
            (visited_set (fst s1), snd s1)" by simp
        from "3.IH"(2)[OF r l False s1 len1] l2
        have n: "spec_neighbours graph ws (visited_set (fst s1), snd s1)
            (visited_set (fst s'), snd s')" by simp
        from spec_traverse_spec_neighbours.intros(3)[OF wn wv t n]
        show ?thesis by simp
      qed
    qed
  qed
qed

lemma firstPass_roots_refines:
  "length (fst s) = length g \<Longrightarrow> set vs \<subseteq> nodes g \<Longrightarrow> firstPass_roots g vs s = Some s' \<Longrightarrow>
   spec_roots g vs (visited_set (fst s), snd s) (visited_set (fst s'), snd s')"
proof (induction vs arbitrary: s)
  case Nil
  then show ?case by (simp add: spec_roots.intros(1))
next
  case (Cons v vs)
  obtain visited order where s: "s = (visited, order)" by (cases s)
  from Cons.prems s have len: "length visited = length g" and vn: "v \<in> nodes g"
    by simp_all
  from vn len have r: "0 \<le> v \<and> nat v < length visited" by (auto simp: nodes_def)
  show ?case
  proof (cases "visited ! nat v")
    case True
    with r have vv: "v \<in> visited_set visited" by (simp add: visited_set_def)
    from Cons.prems(3) True r s have "firstPass_roots g vs s = Some s'" by simp
    from Cons.IH[OF Cons.prems(1) _ this] Cons.prems(2) s
    have "spec_roots g vs (visited_set visited, order) (visited_set (fst s'), snd s')"
      by simp
    from spec_roots.intros(3)[OF vv this] s show ?thesis by simp
  next
    case False
    with r have vv: "v \<notin> visited_set visited" by (simp add: visited_set_def)
    from dfsFirstPass_spec(1)[of s g v] s len vn vv
    have d: "first_post g {v} s (dfsFirstPass g v s)" by simp
    then obtain s1 where s1: "dfsFirstPass g v s = Some s1"
      by (auto simp: first_post_def)
    with d first_post_length[of g "{v}" s s1] Cons.prems(1)
    have len1: "length (fst s1) = length g" by simp
    from Cons.prems(3) False r s s1 have "firstPass_roots g vs s1 = Some s'" by simp
    from Cons.IH[OF len1 _ this] Cons.prems(2)
    have n: "spec_roots g vs (visited_set (fst s1), snd s1) (visited_set (fst s'), snd s')"
      by simp
    from dfsFirstPass_refines(1)[of s g v] s len vn vv s1
    have t: "spec_traverse g v (visited_set visited, order) (visited_set (fst s1), snd s1)"
      by simp
    from spec_roots.intros(2)[OF vv t n] s show ?thesis by simp
  qed
qed

lemma firstPass_refines:
  "firstPass g = Some (visited, order) \<Longrightarrow> spec_finish_order g order"
proof -
  assume "firstPass g = Some (visited, order)"
  then have "firstPass_roots g (map int [0..<length g]) (replicate (length g) False, [])
      = Some (visited, order)"
    by (simp add: firstPass_def)
  from firstPass_roots_refines[OF _ _ this]
  have "spec_roots g (map int [0..<length g]) ({}, []) (visited_set visited, order)"
    by (simp add: image_int_nodes)
  then show ?thesis unfolding spec_finish_order_def by blast
qed

subsection \<open>Roots in ascending order\<close>

lemma least_reaching_unique:
  "least_reaching g r x \<Longrightarrow> least_reaching g r' x \<Longrightarrow> r = r'"
  unfolding least_reaching_def by (meson order_antisym)

lemma closed_rtrancl:
  "(u, x) \<in> E\<^sup>* \<Longrightarrow> E `` V \<subseteq> V \<Longrightarrow> u \<in> V \<Longrightarrow> x \<in> V"
  by (induction rule: rtrancl_induct) auto

lemma dfsFirstPass_loop_blocks:
  "sorted vs \<Longrightarrow> distinct vs \<Longrightarrow> set vs \<subseteq> nodes g \<Longrightarrow> length (fst s) = length g \<Longrightarrow>
   edges g `` visited_set (fst s) \<subseteq> visited_set (fst s) \<Longrightarrow>
   nodes g - visited_set (fst s) \<subseteq> set vs \<Longrightarrow>
   \<exists>visited' new. dfsFirstPass_loop g vs s = Some (visited', snd s @ new) \<and>
      set new \<inter> visited_set (fst s) = {} \<and> root_blocks g vs new"
proof (induction vs arbitrary: s)
  case Nil
  have "root_blocks g [] []" by (simp add: root_blocks_def)
  then show ?case by (intro exI[of _ "fst s"] exI[of _ "[]"]) simp
next
  case (Cons r vs)
  obtain visited order where s: "s = (visited, order)" by (cases s)
  let ?V = "visited_set visited" and ?E = "edges g"
  from Cons.prems s have len: "length visited = length g" and rn: "r \<in> nodes g"
    and closed: "?E `` ?V \<subseteq> ?V" and cover: "nodes g - ?V \<subseteq> set (r # vs)"
    and srt: "sorted vs" "distinct vs" "set vs \<subseteq> nodes g"
    and low: "\<forall>y\<in>set vs. r < y"
    by (auto simp: less_le)
  from rn len have rr: "0 \<le> r \<and> r < int (length g)" and l: "nat r < length visited"
    by (auto simp: nodes_def)
  show ?case
  proof (cases "visited ! nat r")
    case True
    with rr l have "r \<in> ?V" by (simp add: visited_set_def)
    with cover have "nodes g - visited_set (fst s) \<subseteq> set vs" using s by auto
    from Cons.IH[OF srt Cons.prems(4,5) this] obtain visited' new where
      res: "dfsFirstPass_loop g vs s = Some (visited', snd s @ new)"
      and dj: "set new \<inter> visited_set (fst s) = {}" and rb: "root_blocks g vs new"
      by blast
    from res have "dfsFirstPass_loop g (r # vs) s = Some (visited', snd s @ new)"
      by (simp only: s dfsFirstPass_loop_seen[OF rr l True])
    moreover from rb have "root_blocks g (r # vs) new"
      unfolding root_blocks_def by auto
    ultimately show ?thesis using dj by blast
  next
    case False
    with rr l have rV: "r \<notin> ?V" by (simp add: visited_set_def)
    from dfsFirstPass_spec(1)[of s g r] s len rn rV
    obtain visited1 new1 where d: "dfsFirstPass g r (visited, order) = Some (visited1, order @ new1)"
      and e: "explored ?E {r} visited visited1 new1"
      by (auto simp: first_post_def)
    from explored_visited[OF e]
    have v1: "visited_set visited1 = ?V \<union> set new1" "length visited1 = length visited"
      by blast+
    from e rV have n1: "set new1 = (avoiding ?E ?V)\<^sup>* `` {r}"
      by (simp add: explored_def unmarked_source)
    from explored_disjoint[OF e] have dj1: "set new1 \<inter> ?V = {}" .
    from dfsFirstPass_last[OF d] obtain ys where "order @ new1 = ys @ [r]" by blast
    moreover from n1 have "r \<in> set new1" by simp
    ultimately obtain xs where xs: "new1 = xs @ [r]"
      by (cases new1 rule: rev_cases) auto
    have lat1: "later new1 x r" if "x \<in> set new1" for x
      using that unfolding xs by (rule later_last)
    have lr1: "least_reaching g r x" if "x \<in> set new1" for x
      unfolding least_reaching_def
    proof (intro conjI ballI impI)
      show "r \<in> nodes g" by (rule rn)
      from that n1 have "(r, x) \<in> (avoiding ?E ?V)\<^sup>*" by simp
      then have "(r, x) \<in> ?E\<^sup>*" by (rule avoiding_rtrancl_mono[of "{}" ?V, simplified])
      then show "reachable g r x" by (simp add: reachable_def)
    next
      fix u assume u: "u \<in> nodes g" "reachable g u x"
      have "u \<notin> ?V"
      proof
        assume "u \<in> ?V"
        with u(2) closed have "x \<in> ?V"
          unfolding reachable_def by (rule closed_rtrancl)
        with that dj1 show False by blast
      qed
      with u(1) cover have "u \<in> set (r # vs)" by blast
      with low show "r \<le> u" by auto
    qed
    let ?s1 = "(visited1, order @ new1)"
    have closed1: "?E `` visited_set (fst ?s1) \<subseteq> visited_set (fst ?s1)"
    proof
      fix b assume "b \<in> ?E `` visited_set (fst ?s1)"
      then obtain a where a: "a \<in> ?V \<union> set new1" "(a, b) \<in> ?E" using v1(1) by auto
      show "b \<in> visited_set (fst ?s1)"
      proof (cases "a \<in> ?V \<or> b \<in> ?V")
        case True
        with a(2) closed v1(1) show ?thesis by auto
      next
        case False
        with a have "a \<in> set new1" "(a, b) \<in> (avoiding ?E ?V)\<^sup>*"
          by (auto simp: avoiding_def)
        from explored_closed[OF e this] v1(1) show ?thesis by simp
      qed
    qed
    from cover \<open>r \<in> set new1\<close> v1(1)
    have cover1: "nodes g - visited_set (fst ?s1) \<subseteq> set vs" by auto
    from v1(2) len have len1: "length (fst ?s1) = length g" by simp
    from Cons.IH[OF srt len1 closed1 cover1] obtain visited2 new2 where
      res: "dfsFirstPass_loop g vs ?s1 = Some (visited2, snd ?s1 @ new2)"
      and dj2: "set new2 \<inter> visited_set (fst ?s1) = {}" and rb: "root_blocks g vs new2"
      by blast
    from dj2 v1(1) have d12: "set new1 \<inter> set new2 = {}" and d2V: "set new2 \<inter> ?V = {}"
      by auto
    from rb have lr2: "\<And>x. x \<in> set new2 \<Longrightarrow> \<exists>r'\<in>set vs. least_reaching g r' x \<and> later new2 x r'"
      and ord2: "\<And>a b ra rb. a \<in> set new2 \<Longrightarrow> b \<in> set new2 \<Longrightarrow> least_reaching g ra a \<Longrightarrow>
        least_reaching g rb b \<Longrightarrow> ra < rb \<Longrightarrow> later new2 a b"
      unfolding root_blocks_def by blast+
    have root1: "ra = r" if "a \<in> set new1" "least_reaching g ra a" for a ra
      using least_reaching_unique[OF that(2) lr1[OF that(1)]] .
    have root2: "r < ra" if "a \<in> set new2" "least_reaching g ra a" for a ra
    proof -
      from lr2[OF that(1)] obtain r' where "r' \<in> set vs" "least_reaching g r' a" by blast
      with least_reaching_unique[OF that(2), of r'] low show ?thesis by auto
    qed
    have "root_blocks g (r # vs) (new1 @ new2)"
      unfolding root_blocks_def
    proof (intro conjI ballI allI impI)
      fix x assume "x \<in> set (new1 @ new2)"
      then consider "x \<in> set new1" | "x \<in> set new2" "x \<notin> set new1" using d12 by auto
      then show "\<exists>r'\<in>set (r # vs). least_reaching g r' x \<and> later (new1 @ new2) x r'"
      proof cases
        case 1
        from lat1[OF 1] have "later (new1 @ new2) x r" by (rule later_append1)
        with lr1[OF 1] show ?thesis by auto
      next
        case 2
        from lr2[OF 2(1)] obtain r' where r': "r' \<in> set vs" "least_reaching g r' x"
          "later new2 x r'" by blast
        from later_append2[OF 2(2) r'(3)] r'(1,2) show ?thesis by auto
      qed
    next
      fix a b ra rb
      assume a: "a \<in> set (new1 @ new2)" and b: "b \<in> set (new1 @ new2)"
        and h: "least_reaching g ra a \<and> least_reaching g rb b \<and> ra < rb"
      show "later (new1 @ new2) a b"
      proof (cases "a \<in> set new1")
        case a1: True
        show ?thesis
        proof (cases "b \<in> set new1")
          case True
          with a1 h root1 have "ra = r" "rb = r" by blast+
          with h show ?thesis by simp
        next
          case False
          with b have "b \<in> set new2" by simp
          with a1 show ?thesis by (rule later_append_right)
        qed
      next
        case a2: False
        with a have a2': "a \<in> set new2" by simp
        show ?thesis
        proof (cases "b \<in> set new1")
          case True
          with h root1 have "rb = r" by blast
          moreover from a2' h root2 have "r < ra" by blast
          ultimately show ?thesis using h by simp
        next
          case False
          with b have "b \<in> set new2" by simp
          with ord2[OF a2' this] h have "later new2 a b" by blast
          with a2 show ?thesis by (simp add: later_append2)
        qed
      qed
    qed
    moreover from res d
    have "dfsFirstPass_loop g (r # vs) s = Some (visited2, snd s @ (new1 @ new2))"
      by (simp only: s dfsFirstPass_loop_call[OF rr l False d]) simp
    moreover from dj1 d2V s have "set (new1 @ new2) \<inter> visited_set (fst s) = {}" by auto
    ultimately show ?thesis by blast
  qed
qed

lemma sorted_roots: "sorted (map int [0..<n]) \<and> distinct (map int [0..<n])"
  by (simp add: sorted_map distinct_map)

lemma firstPass_blocks:
  assumes "firstPass g = Some (visited, order)"
  shows "(\<forall>x r. least_reaching g r x \<longrightarrow> later order x r) \<and>
     (\<forall>a b ra rb. least_reaching g ra a \<and> least_reaching g rb b \<and> ra < rb \<longrightarrow>
        later order a b)"
proof -
  let ?s = "(replicate (length g) False, [] :: int list)"
  let ?vs = "map int [0..<length g]"
  have "firstPass g = dfsFirstPass_loop g ?vs ?s"
    unfolding firstPass_def by (rule firstPass_roots_loop) (simp_all add: image_int_nodes)
  moreover have "\<exists>visited' new. dfsFirstPass_loop g ?vs ?s = Some (visited', snd ?s @ new) \<and>
      set new \<inter> visited_set (fst ?s) = {} \<and> root_blocks g ?vs new"
    by (rule dfsFirstPass_loop_blocks) (simp_all add: sorted_roots image_int_nodes)
  ultimately have rb: "root_blocks g ?vs order" using assms by auto
  from firstPass_spec[of g] assms have all: "set order = nodes g" by auto
  have inn: "x \<in> set order" if "least_reaching g r x" for r x
  proof -
    from that have "r \<in> nodes g" "(r, x) \<in> (edges g)\<^sup>*"
      by (simp_all add: least_reaching_def reachable_def)
    from edges_rtrancl_nodes[OF this(2,1)] all show ?thesis by simp
  qed
  have "later order x r" if "least_reaching g r x" for x r
  proof -
    from rb inn[OF that] obtain r' where "least_reaching g r' x" "later order x r'"
      unfolding root_blocks_def by blast
    with least_reaching_unique[OF that, of r'] show ?thesis by simp
  qed
  moreover have "later order a b"
    if "least_reaching g ra a \<and> least_reaching g rb b \<and> ra < rb" for a b ra rb
    using rb inn that unfolding root_blocks_def by blast
  ultimately show ?thesis by blast
qed

text \<open>
  Claim C4. The finish-order pass returns a sequence \<^verbatim>\<open>order\<close> that is a permutation
  of the node indices \<open>0, \<dots>, n - 1\<close>, and it is the sequence, the only one, that the
  specification's pass yields: roots \<open>0, \<dots>, n - 1\<close> in ascending order, a traversal
  from each root not yet visited, recursion into the out-neighbours in range and
  unvisited, each node appended after its out-neighbours are processed. In \<^verbatim>\<open>order\<close>

  \<^item> whatever a node reaches is finished no later than some node mutually reachable
    with that node;
  \<^item> every node stands at or before the least node that reaches it, the root of its
    traversal;
  \<^item> nodes explored from different roots stand in the ascending order of the roots.

  Each traversal \<^verbatim>\<open>dfsFirstPass\<close> started at an unvisited node \<open>v\<close> in range, on a
  \<^verbatim>\<open>visited\<close> array of size \<open>n\<close>, does what the specification's traversal does. It
  appends \<open>v\<close> last, after the nodes \<open>new\<close> it explored; with \<open>v\<close> these are exactly the
  nodes that \<open>v\<close> reaches through unvisited nodes, they were in range and unvisited, and
  every in-range out-neighbour of \<open>v\<close> is \<open>v\<close> itself, was visited before, or is among
  them: post-order.
\<close>

theorem firstPass_order:
  "(\<exists>visited order.
      firstPass g = Some (visited, order) \<and>
      mset order = mset (map int [0..<length g]) \<and>
      spec_finish_order g order \<and>
      (\<forall>order'. spec_finish_order g order' \<longrightarrow> order' = order) \<and>
      finish_ok (edges g) {} order \<and>
      (\<forall>x r. least_reaching g r x \<longrightarrow> later order x r) \<and>
      (\<forall>a b ra rb. least_reaching g ra a \<and> least_reaching g rb b \<and> ra < rb \<longrightarrow>
         later order a b)) \<and>
   (\<forall>v visited order.
      length visited = length g \<and> v \<in> nodes g \<and> v \<notin> visited_set visited \<longrightarrow>
      (\<exists>visited' new.
         dfsFirstPass g v (visited, order) = Some (visited', order @ new @ [v]) \<and>
         spec_traverse g v (visited_set visited, order)
           (visited_set visited', order @ new @ [v]) \<and>
         v \<notin> set new \<and> distinct new \<and> set new \<subseteq> nodes g - visited_set visited \<and>
         set (new @ [v]) = (avoiding (edges g) (visited_set visited))\<^sup>* `` {v} \<and>
         (\<forall>w\<in>set (g ! nat v). w \<in> nodes g \<longrightarrow>
            w = v \<or> w \<in> visited_set visited \<or> w \<in> set new)))"
proof (intro conjI allI impI)
  from firstPass_spec[of g] obtain visited order where
    res: "firstPass g = Some (visited, order)" and d: "distinct order"
    and s: "set order = nodes g" and ok: "finish_ok (edges g) {} order" by blast
  have "distinct (map int [0..<length g])" by (simp add: distinct_map)
  with d s have perm: "mset order = mset (map int [0..<length g])"
    by (simp only: set_eq_iff_mset_eq_distinct[symmetric] set_upt_nodes)
  have sp: "spec_finish_order g order" using res by (rule firstPass_refines)
  have un: "\<forall>order'. spec_finish_order g order' \<longrightarrow> order' = order"
    using spec_finish_order_unique[OF sp] by blast
  note bl = firstPass_blocks[OF res]
  from res perm sp un ok bl[THEN conjunct1] bl[THEN conjunct2]
  have "firstPass g = Some (visited, order) \<and>
      mset order = mset (map int [0..<length g]) \<and>
      spec_finish_order g order \<and>
      (\<forall>order'. spec_finish_order g order' \<longrightarrow> order' = order) \<and>
      finish_ok (edges g) {} order \<and>
      (\<forall>x r. least_reaching g r x \<longrightarrow> later order x r) \<and>
      (\<forall>a b ra rb. least_reaching g ra a \<and> least_reaching g rb b \<and> ra < rb \<longrightarrow>
         later order a b)"
    by (intro conjI)
  then show "\<exists>visited order.
      firstPass g = Some (visited, order) \<and>
      mset order = mset (map int [0..<length g]) \<and>
      spec_finish_order g order \<and>
      (\<forall>order'. spec_finish_order g order' \<longrightarrow> order' = order) \<and>
      finish_ok (edges g) {} order \<and>
      (\<forall>x r. least_reaching g r x \<longrightarrow> later order x r) \<and>
      (\<forall>a b ra rb. least_reaching g ra a \<and> least_reaching g rb b \<and> ra < rb \<longrightarrow>
         later order a b)"
    by (intro exI)
next
  fix v visited order
  assume "length visited = length g \<and> v \<in> nodes g \<and> v \<notin> visited_set visited"
  then have h: "length visited = length g" "v \<in> nodes g" "v \<notin> visited_set visited"
    by simp_all
  from dfsFirstPass_post_order[OF h, of order] obtain visited' new where
    res: "dfsFirstPass g v (visited, order) = Some (visited', order @ new @ [v])"
    and p: "v \<notin> set new" "distinct new" "set new \<subseteq> nodes g - visited_set visited"
      "set (new @ [v]) = (avoiding (edges g) (visited_set visited))\<^sup>* `` {v}"
      "\<forall>w\<in>set (g ! nat v). w \<in> nodes g \<longrightarrow>
          w = v \<or> w \<in> visited_set visited \<or> w \<in> set new"
    by (elim exE conjE)
  from dfsFirstPass_refines(1)[of "(visited, order)" g v] h res
  have "spec_traverse g v (visited_set visited, order)
      (visited_set visited', order @ new @ [v])" by simp
  with res p show "\<exists>visited' new.
         dfsFirstPass g v (visited, order) = Some (visited', order @ new @ [v]) \<and>
         spec_traverse g v (visited_set visited, order)
           (visited_set visited', order @ new @ [v]) \<and>
         v \<notin> set new \<and> distinct new \<and> set new \<subseteq> nodes g - visited_set visited \<and>
         set (new @ [v]) = (avoiding (edges g) (visited_set visited))\<^sup>* `` {v} \<and>
         (\<forall>w\<in>set (g ! nat v). w \<in> nodes g \<longrightarrow>
            w = v \<or> w \<in> visited_set visited \<or> w \<in> set new)"
    by (intro exI conjI)
qed

theorem firstPass_order_witness:
  "(\<exists>visited. firstPass [[1], [], []] = Some (visited, [1, 0, 2])) \<and>
   spec_finish_order [[1], [], []] [1, 0, 2] \<and>
   least_reaching [[1], [], []] 0 1 \<and> later [1, 0, 2 :: int] 1 0 \<and>
   least_reaching [[1], [], []] 2 2 \<and> later [1, 0, 2 :: int] 1 2 \<and>
   (\<exists>visited' new.
      dfsFirstPass [[1], [2], [0]] 1 ([True, False, False], [])
        = Some (visited', [] @ new @ [1]) \<and>
      spec_traverse [[1], [2], [0]] 1 (visited_set [True, False, False], [])
        (visited_set visited', [] @ new @ [1]) \<and>
      1 \<notin> set new \<and>
      (\<forall>w\<in>set ([[1], [2], [0]] ! nat 1). w \<in> nodes [[1], [2], [0]] \<longrightarrow>
         w = 1 \<or> w \<in> visited_set [True, False, False] \<or> w \<in> set new))"
proof -
  let ?G = "[[1], [], []] :: Graph"
  from firstPass_order[of ?G, THEN conjunct1] obtain visited order where
    res: "firstPass ?G = Some (visited, order)"
    and sp: "spec_finish_order ?G order"
    and b1: "\<forall>x r. least_reaching ?G r x \<longrightarrow> later order x r"
    and b2: "\<forall>a b ra rb. least_reaching ?G ra a \<and> least_reaching ?G rb b \<and> ra < rb \<longrightarrow>
         later order a b"
    by (elim exE conjE)
  have "firstPass ?G = Some ([True, True, True], [1, 0, 2])" by code_simp
  with res have o: "order = [1, 0, 2]" and f: "\<exists>visited. firstPass ?G = Some (visited, [1, 0, 2])"
    by simp_all
  have e01: "(0, 1) \<in> edges ?G" by (simp add: edges_def nodes_def)
  have l0: "least_reaching ?G 0 1"
    unfolding least_reaching_def reachable_def using e01 by (auto simp: nodes_def)
  have cl: "edges ?G `` {0, 1} \<subseteq> {0, 1}" by (auto simp: edges_def nodes_def)
  have "2 \<le> u" if "u \<in> nodes ?G" "(u, 2) \<in> (edges ?G)\<^sup>*" for u
  proof (rule ccontr)
    assume "\<not> 2 \<le> u"
    with that(1) have "u \<in> {0, 1}" by (auto simp: nodes_def)
    from closed_rtrancl[OF that(2) cl this] show False by simp
  qed
  then have l2: "least_reaching ?G 2 2"
    unfolding least_reaching_def reachable_def by (auto simp: nodes_def)
  from b1 l0 o have w1: "later [1, 0, 2 :: int] 1 0" by blast
  from b2[rule_format, of 0 1 2 2] l0 l2 o have w2: "later [1, 0, 2 :: int] 1 2" by simp
  have h: "length [True, False, False] = length [[1], [2], [0::int]] \<and>
        1 \<in> nodes [[1], [2], [0]] \<and> 1 \<notin> visited_set [True, False, False]"
    by (simp add: nodes_def visited_set_def)
  from firstPass_order[of "[[1], [2], [0]]", THEN conjunct2, rule_format, OF h, of "[]"]
  obtain visited' new where
    "dfsFirstPass [[1], [2], [0]] 1 ([True, False, False], [])
        = Some (visited', [] @ new @ [1])"
    "spec_traverse [[1], [2], [0]] 1 (visited_set [True, False, False], [])
        (visited_set visited', [] @ new @ [1])"
    "1 \<notin> set new"
    "\<forall>w\<in>set ([[1], [2], [0]] ! nat 1). w \<in> nodes [[1], [2], [0]] \<longrightarrow>
         w = 1 \<or> w \<in> visited_set [True, False, False] \<or> w \<in> set new"
    by (elim exE conjE)
  then have w3: "\<exists>visited' new.
      dfsFirstPass [[1], [2], [0]] 1 ([True, False, False], [])
        = Some (visited', [] @ new @ [1]) \<and>
      spec_traverse [[1], [2], [0]] 1 (visited_set [True, False, False], [])
        (visited_set visited', [] @ new @ [1]) \<and>
      1 \<notin> set new \<and>
      (\<forall>w\<in>set ([[1], [2], [0]] ! nat 1). w \<in> nodes [[1], [2], [0]] \<longrightarrow>
         w = 1 \<or> w \<in> visited_set [True, False, False] \<or> w \<in> set new)"
    by (intro exI conjI)
  from sp o have "spec_finish_order ?G [1, 0, 2]" by simp
  with f l0 w1 l2 w2 w3 show ?thesis by (intro conjI)
qed

section \<open>The transpose graph\<close>

lemma count_list_replicate:
  "count_list (replicate k v) x = (if x = v then k else 0)"
  by (induction k) auto

lemma count_list_pos: "0 < count_list xs x \<longleftrightarrow> x \<in> set xs"
  using count_list_0_iff[of xs x] by auto

lemma count_list_rows:
  "distinct vs \<Longrightarrow>
   count_list (concat (map (\<lambda>v. replicate (c v) v) vs)) x = (if x \<in> set vs then c x else 0)"
  by (induction vs) (auto simp: count_list_replicate)

lemma buildTranspose_inner_spec:
  "length T = n \<Longrightarrow>
   \<exists>T'. buildTranspose_inner n v ws T = Some T' \<and> length T' = n \<and>
     (\<forall>u<n. T' ! u = T ! u @ replicate (count_list ws (int u)) v)"
proof (induction ws arbitrary: T)
  case Nil
  then show ?case by simp
next
  case (Cons w ws)
  show ?case
  proof (cases "0 \<le> w \<and> w < int n")
    case False
    then have "int u \<noteq> w" if "u < n" for u using that by auto
    with Cons.IH[OF Cons.prems] False show ?thesis by auto
  next
    case True
    with Cons.prems have l: "nat w < length T" by auto
    let ?T1 = "T[nat w := T ! nat w @ [v]]"
    from Cons.prems have "length ?T1 = n" by simp
    from Cons.IH[OF this] obtain T' where
      res: "buildTranspose_inner n v ws ?T1 = Some T'" and len: "length T' = n"
      and rows: "\<forall>u<n. T' ! u = ?T1 ! u @ replicate (count_list ws (int u)) v"
      by blast
    have "T' ! u = T ! u @ replicate (count_list (w # ws) (int u)) v" if "u < n" for u
    proof (cases "u = nat w")
      case True
      with \<open>0 \<le> w \<and> w < int n\<close> have "int u = w" by simp
      with rows that True l show ?thesis by (simp add: replicate_append_same)
    next
      case False
      with \<open>0 \<le> w \<and> w < int n\<close> have "int u \<noteq> w" by auto
      with rows that False show ?thesis by simp
    qed
    with res len True l show ?thesis by simp
  qed
qed

lemma buildTranspose_outer_spec:
  "length T = length g \<Longrightarrow> set vs \<subseteq> nodes g \<Longrightarrow>
   \<exists>T'. buildTranspose_outer g vs T = Some T' \<and> length T' = length g \<and>
     (\<forall>u<length g.
        T' ! u = T ! u @ concat (map (\<lambda>v. replicate (count_list (g ! nat v) (int u)) v) vs))"
proof (induction vs arbitrary: T)
  case Nil
  then show ?case by simp
next
  case (Cons v vs)
  from Cons.prems have r: "0 \<le> v \<and> nat v < length g" by (simp add: nodes_iff)
  from buildTranspose_inner_spec[OF Cons.prems(1), of v "g ! nat v"] obtain T1 where
    i: "buildTranspose_inner (length g) v (g ! nat v) T = Some T1" "length T1 = length g"
    and rows1: "\<forall>u<length g. T1 ! u = T ! u @ replicate (count_list (g ! nat v) (int u)) v"
    by blast
  from Cons.IH[OF i(2)] Cons.prems(2) obtain T' where
    o: "buildTranspose_outer g vs T1 = Some T'" "length T' = length g"
    and rows: "\<forall>u<length g.
        T' ! u = T1 ! u @ concat (map (\<lambda>v. replicate (count_list (g ! nat v) (int u)) v) vs)"
    by auto
  from rows rows1 have "\<forall>u<length g.
      T' ! u = T ! u @ concat (map (\<lambda>v. replicate (count_list (g ! nat v) (int u)) v) (v # vs))"
    by simp
  with r i o show ?case by simp
qed

lemma buildTranspose_rows:
  "\<exists>T. buildTranspose g = Some T \<and> length T = length g \<and>
     (\<forall>u<length g.
        T ! u = concat (map (\<lambda>v. replicate (count_list (g ! nat v) (int u)) v)
                         (map int [0..<length g])))"
proof -
  have "length (replicate (length g) ([] :: int list)) = length g" by simp
  from buildTranspose_outer_spec[OF this, of "map int [0..<length g]"]
  show ?thesis unfolding buildTranspose_def by (simp add: image_int_nodes)
qed

lemma buildTranspose_count:
  "\<exists>T. buildTranspose g = Some T \<and> length T = length g \<and>
     (\<forall>w v. w \<in> nodes g \<longrightarrow>
        count_list (T ! nat w) v = (if v \<in> nodes g then count_list (g ! nat v) w else 0))"
proof -
  from buildTranspose_rows[of g] obtain T where res: "buildTranspose g = Some T"
    and len: "length T = length g"
    and rows: "\<forall>u<length g.
        T ! u = concat (map (\<lambda>v. replicate (count_list (g ! nat v) (int u)) v)
                         (map int [0..<length g]))"
    by blast
  have d: "distinct (map int [0..<length g])" by (simp add: distinct_map)
  have "count_list (T ! nat w) v = (if v \<in> nodes g then count_list (g ! nat v) w else 0)"
    if "w \<in> nodes g" for w v
  proof -
    from that have "nat w < length g" "int (nat w) = w" by (simp_all add: nodes_iff)
    with rows have "T ! nat w = concat (map (\<lambda>v. replicate (count_list (g ! nat v) w) v)
                         (map int [0..<length g]))" by auto
    then show ?thesis
      by (simp only: count_list_rows[OF d] set_upt_nodes)
  qed
  with res len show ?thesis by blast
qed

text \<open>As a relation, the transpose graph has the edges of the graph, reversed.\<close>

lemma buildTranspose_edges:
  "\<exists>T. buildTranspose g = Some T \<and> length T = length g \<and> edges T = (edges g)\<inverse>"
proof -
  from buildTranspose_count[of g] obtain T where res: "buildTranspose g = Some T"
    and len: "length T = length g"
    and cnt: "\<And>w v. w \<in> nodes g \<Longrightarrow>
        count_list (T ! nat w) v = (if v \<in> nodes g then count_list (g ! nat v) w else 0)"
    by blast
  from len have n: "nodes T = nodes g" by (simp add: nodes_def)
  have "(a, b) \<in> edges T \<longleftrightarrow> (b, a) \<in> edges g" for a b
  proof (cases "a \<in> nodes g")
    case False
    with n show ?thesis by (simp add: edges_def)
  next
    case True
    have "b \<in> set (T ! nat a) \<longleftrightarrow> count_list (T ! nat a) b > 0"
      by (simp add: count_list_pos)
    also have "\<dots> \<longleftrightarrow> b \<in> nodes g \<and> count_list (g ! nat b) a > 0"
      using cnt[OF True, of b] by simp
    also have "\<dots> \<longleftrightarrow> b \<in> nodes g \<and> a \<in> set (g ! nat b)"
      by (simp add: count_list_pos)
    finally show ?thesis using True n by (auto simp: edges_def)
  qed
  then have "edges T = (edges g)\<inverse>" by auto
  with res len show ?thesis by blast
qed

text \<open>
  Claim C5. The transpose graph built inside \<^verbatim>\<open>findSCCs\<close> has \<open>n\<close> slots, and the
  slot of a node \<open>w\<close> holds a node \<open>v\<close> as many times as \<open>w\<close> occurs in the adjacency
  list of \<open>v\<close>, and holds nothing but nodes: an occurrence of a target outside
  \<open>[0, n)\<close> adds nothing to any slot.
\<close>

theorem buildTranspose_spec:
  "\<exists>T. buildTranspose g = Some T \<and> length T = length g \<and>
     (\<forall>w v. w \<in> nodes g \<longrightarrow>
        count_list (T ! nat w) v = (if v \<in> nodes g then count_list (g ! nat v) w else 0))"
  by (rule buildTranspose_count)

theorem buildTranspose_spec_witness:
  "\<exists>T. buildTranspose [[1, 7, 1], [0, - 1]] = Some T \<and> length T = 2 \<and>
     count_list (T ! nat 1) 0 = 2 \<and> count_list (T ! nat 1) 7 = 0 \<and>
     count_list (T ! nat 0) 1 = 1"
proof -
  have n: "(0::int) \<in> nodes [[1, 7, 1], [0, - 1]]" "(1::int) \<in> nodes [[1, 7, 1], [0, - 1]]"
    "(7::int) \<notin> nodes [[1, 7, 1], [0, - 1]]"
    by (simp_all add: nodes_def)
  from buildTranspose_spec[of "[[1, 7, 1], [0, - 1]]"] obtain T where
    res: "buildTranspose [[1, 7, 1], [0, - 1]] = Some T \<and> length T = 2"
    and cnt: "\<And>w v. w \<in> nodes [[1, 7, 1], [0, - 1]] \<Longrightarrow>
        count_list (T ! nat w) v =
          (if v \<in> nodes [[1, 7, 1], [0, - 1]] then count_list ([[1, 7, 1], [0, - 1]] ! nat v) w
           else 0)"
    by auto
  from cnt[OF n(2), of 0] cnt[OF n(2), of 7] cnt[OF n(1), of 1] n
  have "count_list (T ! nat 1) 0 = 2 \<and> count_list (T ! nat 1) 7 = 0 \<and>
     count_list (T ! nat 0) 1 = 1" by simp
  with res show ?thesis by blast
qed

section \<open>The second pass\<close>

declare dfsSecondPass.simps [simp del] dfsSecondPass_loop.simps(2) [simp del]

lemma dfsSecondPass_loop_skip:
  "\<not> (0 \<le> w \<and> w < int (length g)) \<Longrightarrow>
   dfsSecondPass_loop g (w # ws) (visited, component) =
   dfsSecondPass_loop g ws (visited, component)"
  by (simp only: dfsSecondPass_loop.simps(2) if_False)

lemma dfsSecondPass_loop_seen:
  "0 \<le> w \<and> w < int (length g) \<Longrightarrow> nat w < length visited \<Longrightarrow> visited ! nat w \<Longrightarrow>
   dfsSecondPass_loop g (w # ws) (visited, component) =
   dfsSecondPass_loop g ws (visited, component)"
  by (simp add: dfsSecondPass_loop.simps(2))

lemma dfsSecondPass_loop_call:
  "0 \<le> w \<and> w < int (length g) \<Longrightarrow> nat w < length visited \<Longrightarrow> \<not> visited ! nat w \<Longrightarrow>
   dfsSecondPass g w (visited, component) = Some s1 \<Longrightarrow>
   dfsSecondPass_loop g (w # ws) (visited, component) = dfsSecondPass_loop g ws s1"
  by (simp add: dfsSecondPass_loop.simps(2))

text \<open>A second-pass traversal only appends to \<^verbatim>\<open>component\<close>, its own node first.\<close>

lemma dfsSecondPass_appends:
  "\<forall>s'. dfsSecondPass g v s = Some s' \<longrightarrow> (\<exists>xs. snd s' = snd s @ v # xs)"
  "\<forall>s'. dfsSecondPass_loop g ws s = Some s' \<longrightarrow> (\<exists>xs. snd s' = snd s @ xs)"
proof (induction g v s and g ws s rule: dfsSecondPass_dfsSecondPass_loop.induct)
  case (1 transposed v visited component)
  show ?case
  proof (intro allI impI)
    fix s' assume a: "dfsSecondPass transposed v (visited, component) = Some s'"
    then have c: "0 \<le> v \<and> nat v < length visited \<and> nat v < length transposed"
      by (simp add: dfsSecondPass.simps split: if_splits)
    with a have "dfsSecondPass_loop transposed (transposed ! nat v)
        (visited[nat v := True], component @ [v]) = Some s'"
      by (simp add: dfsSecondPass.simps)
    with "1.IH"[OF c] show "\<exists>xs. snd s' = snd (visited, component) @ v # xs"
      by auto
  qed
next
  case (2 transposed s)
  then show ?case by simp
next
  case (3 transposed w ws visited component)
  show ?case
  proof (intro allI impI)
    fix s' assume a: "dfsSecondPass_loop transposed (w # ws) (visited, component) = Some s'"
    show "\<exists>xs. snd s' = snd (visited, component) @ xs"
    proof (cases "0 \<le> w \<and> w < int (length transposed)")
      case False
      with a "3.IH"(4)[OF False] show ?thesis
        by (simp only: dfsSecondPass_loop_skip[OF False])
    next
      case r: True
      show ?thesis
      proof (cases "nat w < length visited")
        case False
        with a r show ?thesis by (simp add: dfsSecondPass_loop.simps(2))
      next
        case l: True
        show ?thesis
        proof (cases "visited ! nat w")
          case True
          then have nn: "\<not> \<not> visited ! nat w" by simp
          from a "3.IH"(3)[OF r l nn] show ?thesis
            by (simp only: dfsSecondPass_loop_seen[OF r l True])
        next
          case False
          with a r l obtain s1 where
            d: "dfsSecondPass transposed w (visited, component) = Some s1"
            and l2: "dfsSecondPass_loop transposed ws s1 = Some s'"
            by (auto simp: dfsSecondPass_loop.simps(2) split: option.splits)
          from "3.IH"(1)[OF r l False] d obtain xs where "snd s1 = component @ w # xs"
            by auto
          moreover from "3.IH"(2)[OF r l False d] l2 obtain ys where "snd s' = snd s1 @ ys"
            by auto
          ultimately show ?thesis by simp
        qed
      qed
    qed
  qed
qed

lemma second_post_skip:
  assumes "second_post g S s r" and "w \<notin> S \<longrightarrow> w \<in> visited_set (fst s)"
  shows "second_post g (insert w S) s r"
proof -
  from assms(2) have "S - visited_set (fst s) = insert w S - visited_set (fst s)"
    by blast
  with assms(1) show ?thesis
    unfolding second_post_def by (blast intro: explored_sources)
qed

lemma second_post_root:
  assumes v: "v \<in> nodes g" "length visited = length g" "v \<notin> visited_set visited"
    and l: "second_post g (set (g ! nat v) \<inter> nodes g) (visited[nat v := True], component @ [v])
              (dfsSecondPass_loop g (g ! nat v) (visited[nat v := True], component @ [v]))"
  shows "second_post g {v} (visited, component) (dfsSecondPass g v (visited, component))"
proof -
  from v have r: "0 \<le> v" "nat v < length visited" "nat v < length g"
    by (simp_all add: nodes_iff)
  from l obtain visited' new where
    res: "dfsSecondPass_loop g (g ! nat v) (visited[nat v := True], component @ [v]) =
            Some (visited', (component @ [v]) @ new)"
    and e: "explored (edges g) (set (g ! nat v) \<inter> nodes g) (visited[nat v := True])
              visited' new"
    by (auto simp: second_post_def)
  from e v(1) have e': "explored (edges g) (edges g `` {v}) (visited[nat v := True])
      visited' new"
    by (simp add: edges_image)
  have fresh: "v \<notin> set new" using explored_root_fresh[OF r(1,2) e] .
  from e have dn: "distinct new" by (simp add: explored_def)
  have "explored (edges g) {v} visited visited' (v # new)"
    by (rule explored_root[OF r(1,2) v(3) e']) (use fresh dn in auto)
  moreover from res r
  have "dfsSecondPass g v (visited, component) = Some (visited', component @ v # new)"
    by (simp add: dfsSecondPass.simps)
  ultimately show ?thesis unfolding second_post_def by auto
qed

lemma second_post_seq:
  assumes 1: "second_post g {w} s (Some s1)"
    and 2: "second_post g S s1 r"
    and w: "w \<notin> visited_set (fst s)"
  shows "second_post g (insert w S) s r"
proof -
  from 1 obtain visited1 new1 where s1: "s1 = (visited1, snd s @ new1)"
    and e1: "explored (edges g) {w} (fst s) visited1 new1"
    by (auto simp: second_post_def)
  from 2 s1 obtain visited2 new2 where r: "r = Some (visited2, (snd s @ new1) @ new2)"
    and e2: "explored (edges g) S visited1 visited2 new2"
    by (auto simp: second_post_def)
  have "explored (edges g) (insert w S) (fst s) visited2 (new1 @ new2)"
    by (rule explored_seq[OF e1 e2 w])
  with r show ?thesis unfolding second_post_def by auto
qed

lemma second_post_length:
  "second_post g S s (Some s') \<Longrightarrow> length (fst s') = length (fst s)"
  by (auto simp: second_post_def explored_def)

lemma dfsSecondPass_spec:
  "length (fst s) = length g \<Longrightarrow> v \<in> nodes g \<Longrightarrow> v \<notin> visited_set (fst s) \<Longrightarrow>
     second_post g {v} s (dfsSecondPass g v s)"
  "length (fst s) = length g \<Longrightarrow>
     second_post g (set ws \<inter> nodes g) s (dfsSecondPass_loop g ws s)"
proof (induction g v s and g ws s rule: dfsSecondPass_dfsSecondPass_loop.induct)
  case (1 transposed v visited component)
  from "1.prems" have r: "0 \<le> v \<and> nat v < length visited \<and> nat v < length transposed"
    by (simp add: nodes_iff)
  from "1.prems"
  have "length (fst (visited[nat v := True], component @ [v])) = length transposed"
    by simp
  from "1.IH"[OF r this] "1.prems" show ?case
    by (intro second_post_root) simp_all
next
  case (2 transposed s)
  have "explored (edges transposed) {} (fst s) (fst s) []" by (simp add: explored_none)
  then have "second_post transposed {} s (Some (fst s, snd s @ []))"
    unfolding second_post_def by blast
  then show ?case by simp
next
  case (3 transposed w ws visited component)
  from "3.prems" have len: "length visited = length transposed" by simp
  show ?case
  proof (cases "0 \<le> w \<and> w < int (length transposed)")
    case False
    then have "w \<notin> nodes transposed" by (auto simp: nodes_def)
    then have "set (w # ws) \<inter> nodes transposed = set ws \<inter> nodes transposed" by simp
    with "3.IH"(4)[OF False "3.prems"] show ?thesis
      by (simp only: dfsSecondPass_loop_skip[OF False])
  next
    case r: True
    then have wn: "w \<in> nodes transposed" by (auto simp: nodes_def)
    from r len have l: "nat w < length visited" by auto
    have s: "set (w # ws) \<inter> nodes transposed = insert w (set ws \<inter> nodes transposed)"
      using wn by simp
    show ?thesis
    proof (cases "visited ! nat w")
      case True
      then have nn: "\<not> \<not> visited ! nat w" by simp
      from True r l have "w \<in> visited_set visited" by (simp add: visited_set_def)
      with "3.IH"(3)[OF r l nn "3.prems"]
      have "second_post transposed (insert w (set ws \<inter> nodes transposed)) (visited, component)
              (dfsSecondPass_loop transposed ws (visited, component))"
        by (intro second_post_skip) simp_all
      then show ?thesis
        by (simp only: dfsSecondPass_loop_seen[OF r l True] s)
    next
      case False
      with r l have wv: "w \<notin> visited_set visited" by (simp add: visited_set_def)
      from "3.IH"(1)[OF r l False "3.prems" wn] wv
      have d: "second_post transposed {w} (visited, component)
                 (dfsSecondPass transposed w (visited, component))"
        by simp
      then obtain s1 where s1: "dfsSecondPass transposed w (visited, component) = Some s1"
        by (auto simp: second_post_def)
      with d have d': "second_post transposed {w} (visited, component) (Some s1)" by simp
      from second_post_length[OF d'] len have "length (fst s1) = length transposed" by simp
      from "3.IH"(2)[OF r l False s1 this]
      have "second_post transposed (set ws \<inter> nodes transposed) s1
              (dfsSecondPass_loop transposed ws s1)" .
      from second_post_seq[OF d' this] wv
      have "second_post transposed (insert w (set ws \<inter> nodes transposed)) (visited, component)
              (dfsSecondPass_loop transposed ws s1)" by simp
      then show ?thesis
        by (simp only: dfsSecondPass_loop_call[OF r l False s1] s)
    qed
  qed
qed

text \<open>
  Started at an unvisited node \<open>v\<close> with an empty \<^verbatim>\<open>component\<close>, the second-pass
  traversal returns the nodes that \<open>v\<close> reaches through unvisited nodes, \<open>v\<close> first.
\<close>

lemma dfsSecondPass_component:
  assumes "length visited = length g" "v \<in> nodes g" "v \<notin> visited_set visited"
  shows "\<exists>visited' new. dfsSecondPass g v (visited, []) = Some (visited', v # new) \<and>
           explored (edges g) {v} visited visited' (v # new)"
proof -
  from dfsSecondPass_spec(1)[of "(visited, [])" g v] assms
  obtain visited' xs where res: "dfsSecondPass g v (visited, []) = Some (visited', xs)"
    and e: "explored (edges g) {v} visited visited' xs"
    by (auto simp: second_post_def)
  from dfsSecondPass_appends(1)[of g v "(visited, [])"] res
  obtain new where "xs = v # new" by auto
  with res e show ?thesis by blast
qed

section \<open>Strongly connected components\<close>

lemma avoiding_converse: "avoiding (E\<inverse>) V = (avoiding E V)\<inverse>"
  by (auto simp: avoiding_def)

lemma avoiding_source:
  "(y, r) \<in> (avoiding E W)\<^sup>* \<Longrightarrow> r \<notin> W \<Longrightarrow> y \<notin> W"
  by (erule converse_rtranclE) (auto simp: avoiding_def)

lemma path_avoiding:
  assumes "(y, r) \<in> E\<^sup>*"
    and "\<And>z. (y, z) \<in> E\<^sup>* \<Longrightarrow> (z, r) \<in> E\<^sup>* \<Longrightarrow> z \<notin> W"
  shows "(y, r) \<in> (avoiding E W)\<^sup>*"
  using assms
proof (induction rule: converse_rtrancl_induct)
  case base
  then show ?case by simp
next
  case (step y z)
  have "(z, r) \<in> (avoiding E W)\<^sup>*"
  proof (rule step.IH)
    fix z' assume "(z, z') \<in> E\<^sup>*" "(z', r) \<in> E\<^sup>*"
    with step.hyps(1) step.prems[of z'] show "z' \<notin> W"
      by (blast intro: converse_rtrancl_into_rtrancl)
  qed
  moreover from step.hyps step.prems[of y] step.prems[of z]
  have "(y, z) \<in> avoiding E W"
    by (auto simp: avoiding_def intro: converse_rtrancl_into_rtrancl)
  ultimately show ?case by (rule converse_rtrancl_into_rtrancl[rotated])
qed

text \<open>
  The heart of Kosaraju's algorithm. Let \<open>r\<close> be unvisited, let every node that
  finished after \<open>r\<close> be visited, and let the visited set \<open>W\<close> be closed under mutual
  reachability. Then what \<open>r\<close> reaches in the reversed graph through unvisited nodes is
  the strongly connected component of \<open>r\<close>.
\<close>

lemma kosaraju_root:
  assumes ok: "finish_ok E {} order"
    and split: "order = pre @ r # post" "r \<notin> set pre"
    and post: "set post \<subseteq> W"
    and closed: "\<And>x y. x \<in> W \<Longrightarrow> (x, y) \<in> E\<^sup>* \<Longrightarrow> (y, x) \<in> E\<^sup>* \<Longrightarrow> y \<in> W"
    and r: "r \<notin> W"
    and field: "\<And>a b. (a, b) \<in> E \<Longrightarrow> a \<in> set order"
  shows "(avoiding (E\<inverse>) W)\<^sup>* `` {r} = scc E r"
proof (intro equalityI subsetI)
  fix y assume "y \<in> (avoiding (E\<inverse>) W)\<^sup>* `` {r}"
  then have p: "(y, r) \<in> (avoiding E W)\<^sup>*"
    by (simp add: avoiding_converse rtrancl_converse)
  then have yr: "(y, r) \<in> E\<^sup>*"
    by (rule avoiding_rtrancl_mono[of "{}" W, simplified])
  from p r have yW: "y \<notin> W" by (rule avoiding_source)
  from split have rin: "r \<in> set order" by simp
  from yr have yin: "y \<in> set order"
    by (rule converse_rtranclE) (use rin field in auto)
  from ok yin rin yr obtain c where c: "later order r c" "(y, c) \<in> E\<^sup>*" "(c, y) \<in> E\<^sup>*"
    unfolding finish_ok_def by auto
  from c(1) split have "c = r \<or> c \<in> set post" by (simp add: later_split)
  moreover have "c \<notin> set post"
  proof
    assume "c \<in> set post"
    with post have "c \<in> W" by blast
    from closed[OF this c(3) c(2)] yW show False by simp
  qed
  ultimately have "c = r" by simp
  with c show "y \<in> scc E r" by (simp add: scc_def)
next
  fix y assume "y \<in> scc E r"
  then have yr: "(y, r) \<in> E\<^sup>*" and ry: "(r, y) \<in> E\<^sup>*" by (simp_all add: scc_def)
  have "(y, r) \<in> (avoiding E W)\<^sup>*"
  proof (rule path_avoiding[OF yr])
    fix z assume z: "(y, z) \<in> E\<^sup>*" "(z, r) \<in> E\<^sup>*"
    show "z \<notin> W"
    proof
      assume "z \<in> W"
      moreover from ry z(1) have "(r, z) \<in> E\<^sup>*" by (rule rtrancl_trans)
      ultimately have "r \<in> W" using z(2) closed by blast
      with r show False by simp
    qed
  qed
  then show "y \<in> (avoiding (E\<inverse>) W)\<^sup>* `` {r}"
    by (simp add: avoiding_converse rtrancl_converse)
qed

lemma sccs_inv_closed:
  assumes inv: "sccs_inv g s" and x: "x \<in> visited_set (fst s)"
    and xy: "(x, y) \<in> (edges g)\<^sup>*" and yx: "(y, x) \<in> (edges g)\<^sup>*"
  shows "y \<in> visited_set (fst s)"
proof -
  from inv x obtain C where C: "C \<in> set (snd s)" "x \<in> set C"
    by (auto simp: sccs_inv_def)
  with inv have sC: "set C = scc (edges g) (hd C)" by (simp add: sccs_inv_def)
  with C(2) have "(hd C, x) \<in> (edges g)\<^sup>*" "(x, hd C) \<in> (edges g)\<^sup>*"
    by (simp_all add: scc_def)
  with xy yx have "(hd C, y) \<in> (edges g)\<^sup>*" "(y, hd C) \<in> (edges g)\<^sup>*"
    by (blast intro: rtrancl_trans)+
  with sC have "y \<in> set C" by (simp add: scc_def)
  with C(1) inv show ?thesis by (auto simp: sccs_inv_def)
qed

lemma visited_set_nodes: "length visited = length g \<Longrightarrow> visited_set visited \<subseteq> nodes g"
  by (auto simp: visited_set_def nodes_iff)

lemma secondPass_roots_step:
  "secondPass_roots T order (rev (map int [0..<Suc k])) (visited, components) =
     (if k < length order then
        (let v = order ! k in
         if 0 \<le> v \<and> nat v < length visited then
           (if \<not> visited ! nat v then
              (case dfsSecondPass T v (visited, []) of
                 None \<Rightarrow> None
               | Some (visited', component) \<Rightarrow>
                   secondPass_roots T order (rev (map int [0..<k]))
                     (visited', components @ [component]))
            else secondPass_roots T order (rev (map int [0..<k])) (visited, components))
         else None)
      else None)"
  by simp

lemma secondPass_roots_spec:
  assumes T: "length T = length g" "edges T = (edges g)\<inverse>"
    and ord: "distinct order" "set order = nodes g" "finish_ok (edges g) {} order"
  shows "k \<le> length order \<Longrightarrow> sccs_inv g s \<Longrightarrow> set (drop k order) \<subseteq> visited_set (fst s) \<Longrightarrow>
     \<exists>visited' cs.
        secondPass_roots T order (rev (map int [0..<k])) s = Some (visited', snd s @ cs) \<and>
        sccs_inv g (visited', snd s @ cs) \<and> set order \<subseteq> visited_set visited' \<and>
        subseq (map hd cs) (rev (take k order)) \<and>
        (\<forall>C\<in>set cs. \<forall>x\<in>set C. later order x (hd C))"
proof (induction k arbitrary: s)
  case 0
  then have "secondPass_roots T order (rev (map int [0..<0])) s = Some (fst s, snd s @ [])"
    "sccs_inv g (fst s, snd s @ [])" "set order \<subseteq> visited_set (fst s)"
    by simp_all
  then show ?case by (intro exI[of _ "fst s"] exI[of _ "[]"]) simp
next
  case (Suc k)
  obtain visited components where s: "s = (visited, components)" by (cases s)
  let ?W = "visited_set visited" and ?E = "edges g"
  let ?r = "order ! k"
  from Suc.prems(1) have k: "k < length order" "k \<le> length order" by simp_all
  from Suc.prems(2) s have len: "length visited = length g" by (simp add: sccs_inv_def)
  from k ord(2) have rn: "?r \<in> nodes g" using nth_mem by blast
  with len have rr: "0 \<le> ?r \<and> nat ?r < length visited" by (simp add: nodes_iff)
  have sp: "order = take k order @ ?r # drop (Suc k) order"
    using k by (simp add: id_take_nth_drop[symmetric])
  have dr: "drop k order = ?r # drop (Suc k) order"
    using k by (simp add: Cons_nth_drop_Suc)
  have tk: "rev (take (Suc k) order) = ?r # rev (take k order)"
    using k by (simp add: take_Suc_conv_app_nth)
  show ?case
  proof (cases "visited ! nat ?r")
    case True
    with rr have "?r \<in> ?W" by (simp add: visited_set_def)
    with Suc.prems(3) s dr have "set (drop k order) \<subseteq> visited_set (fst s)" by simp
    from Suc.IH[OF k(2) Suc.prems(2) this] obtain visited' cs where
      res: "secondPass_roots T order (rev (map int [0..<k])) s = Some (visited', snd s @ cs)"
      and inv: "sccs_inv g (visited', snd s @ cs)" "set order \<subseteq> visited_set visited'"
      and sub: "subseq (map hd cs) (rev (take k order))"
      and lat: "\<forall>C\<in>set cs. \<forall>x\<in>set C. later order x (hd C)"
      by blast
    from True rr k res s
    have "secondPass_roots T order (rev (map int [0..<Suc k])) s = Some (visited', snd s @ cs)"
      by (simp only: s secondPass_roots_step Let_def) simp
    moreover from sub have "subseq (map hd cs) (rev (take (Suc k) order))"
      by (simp only: tk) (rule list_emb_Cons)
    ultimately show ?thesis using inv lat by blast
  next
    case False
    with rr have rW: "?r \<notin> ?W" by (simp add: visited_set_def)
    from rn T(1) have rT: "?r \<in> nodes T" by (simp add: nodes_def)
    from len T(1) have "length visited = length T" by simp
    from dfsSecondPass_component[OF this rT rW] obtain visited1 new where
      d: "dfsSecondPass T ?r (visited, []) = Some (visited1, ?r # new)"
      and e: "explored (edges T) {?r} visited visited1 (?r # new)"
      by blast
    let ?C = "?r # new"
    from ord(1) sp have rpre: "?r \<notin> set (take k order)"
      by (metis distinct_append distinct.simps(2) disjoint_iff list.set_intros(1))
    have post: "set (drop (Suc k) order) \<subseteq> ?W"
      using Suc.prems(3) s dr by simp
    have "set ?C = (avoiding (?E\<inverse>) ?W)\<^sup>* `` {?r}"
      using e rW T(2) by (simp add: explored_def unmarked_source)
    also have "\<dots> = scc ?E ?r"
    proof (rule kosaraju_root[OF ord(3) sp rpre post _ rW])
      fix x y assume "x \<in> ?W" "(x, y) \<in> ?E\<^sup>*" "(y, x) \<in> ?E\<^sup>*"
      with sccs_inv_closed[of g s x y] Suc.prems(2) s show "y \<in> ?W" by simp
    next
      fix a b assume "(a, b) \<in> ?E"
      with ord(2) show "a \<in> set order" by (simp add: edges_def)
    qed
    finally have sC: "set ?C = scc ?E ?r" .
    let ?s1 = "(visited1, components @ [?C])"
    from explored_visited[OF e]
    have v1: "visited_set visited1 = ?W \<union> set ?C" "length visited1 = length visited"
      "distinct ?C"
      by blast+
    from explored_disjoint[OF e] have dj: "set ?C \<inter> ?W = {}" .
    from Suc.prems(2) s have inv0: "?W = set (concat components)"
      "distinct (concat components)"
      "\<forall>C\<in>set components. C \<noteq> [] \<and> set C = scc ?E (hd C)"
      by (simp_all add: sccs_inv_def)
    have inv1: "sccs_inv g ?s1"
      unfolding sccs_inv_def
    proof (intro conjI)
      show "length (fst ?s1) = length g" using v1(2) len by simp
      show "visited_set (fst ?s1) = set (concat (snd ?s1))"
        using v1(1) inv0(1) by auto
      show "distinct (concat (snd ?s1))"
        using inv0(1,2) v1(3) dj by auto
      show "\<forall>C\<in>set (snd ?s1). C \<noteq> [] \<and> set C = scc ?E (hd C)"
        using inv0(3) sC by auto
    qed
    have "set (drop k order) \<subseteq> visited_set (fst ?s1)"
      using dr post v1(1) by auto
    from Suc.IH[OF k(2) inv1 this] obtain visited' cs where
      res: "secondPass_roots T order (rev (map int [0..<k])) ?s1 =
              Some (visited', snd ?s1 @ cs)"
      and inv: "sccs_inv g (visited', snd ?s1 @ cs)" "set order \<subseteq> visited_set visited'"
      and sub: "subseq (map hd cs) (rev (take k order))"
      and lat: "\<forall>C\<in>set cs. \<forall>x\<in>set C. later order x (hd C)"
      by blast
    have "secondPass_roots T order (rev (map int [0..<Suc k])) s =
            Some (visited', snd s @ (?C # cs))"
      using False rr k res d s
      by (simp only: s secondPass_roots_step Let_def) simp
    moreover from inv s have "sccs_inv g (visited', snd s @ (?C # cs))" by simp
    moreover from sub have "subseq (map hd (?C # cs)) (rev (take (Suc k) order))"
      by (simp add: tk)
    moreover have "later order x (hd ?C)" if "x \<in> set ?C" for x
    proof -
      have "x \<notin> set (drop (Suc k) order)" using that dj post by blast
      moreover from that sC ord(2) rn have "x \<in> set order"
        by (auto simp: scc_def dest: edges_rtrancl_nodes)
      ultimately have "x \<in> set (take k order @ [?r])"
        using sp by (metis Un_iff append.simps(1,2) append_assoc set_append)
      then have "later (take k order @ [?r]) x ?r" by (rule later_last)
      then have "later ((take k order @ [?r]) @ drop (Suc k) order) x ?r"
        by (rule later_append1)
      with sp show ?thesis by simp
    qed
    with lat have "\<forall>C\<in>set (?C # cs). \<forall>x\<in>set C. later order x (hd C)" by simp
    ultimately show ?thesis using inv(2) by blast
  qed
qed

section \<open>\<^verbatim>\<open>findSCCs\<close>\<close>

lemma card_nodes: "card (nodes g) = length g"
  using card_image[of int "{0..<length g}"] by (simp add: image_int_nodes)

lemma length_order: "distinct order \<Longrightarrow> set order = nodes g \<Longrightarrow> length order = length g"
  using distinct_card[of order] by (simp add: card_nodes)

lemma length_concat_ge: "\<forall>C\<in>set cs. C \<noteq> [] \<Longrightarrow> length cs \<le> length (concat cs)"
proof (induction cs)
  case Nil
  then show ?case by simp
next
  case (Cons C cs)
  then have "length cs \<le> length (concat cs)" by simp
  moreover from Cons.prems have "1 \<le> length C" by (cases C) auto
  ultimately show ?case by simp
qed

text \<open>
  What \<^verbatim>\<open>findSCCs\<close> returns: the components list every node once, each is the
  strongly connected component of its first node, the first nodes follow the finishing
  order backwards, and the first node of a component is its last to finish.
\<close>

lemma findSCCs_spec:
  "\<exists>cs visited order T visited'.
     findSCCs g = Some cs \<and> firstPass g = Some (visited, order) \<and>
     buildTranspose g = Some T \<and>
     secondPass_roots T order (rev (map int [0..<length g])) (replicate (length g) False, [])
       = Some (visited', cs) \<and>
     distinct order \<and> set order = nodes g \<and>
     distinct (concat cs) \<and> set (concat cs) = nodes g \<and>
     (\<forall>C\<in>set cs. C \<noteq> [] \<and> set C = scc (edges g) (hd C)) \<and>
     subseq (map hd cs) (rev order) \<and>
     (\<forall>C\<in>set cs. \<forall>x\<in>set C. later order x (hd C))"
proof -
  from firstPass_spec[of g] obtain visited order where
    f: "firstPass g = Some (visited, order)" and lv: "length visited = length g"
    and ord: "distinct order" "set order = nodes g" "finish_ok (edges g) {} order"
    by blast
  from buildTranspose_edges[of g] obtain T where
    t: "buildTranspose g = Some T" and T: "length T = length g" "edges T = (edges g)\<inverse>"
    by blast
  let ?s = "(replicate (length g) False, [] :: Components)"
  have lo: "length order = length g" using ord(1,2) by (rule length_order)
  have inv: "sccs_inv g ?s" by (simp add: sccs_inv_def)
  have "set (drop (length order) order) \<subseteq> visited_set (fst ?s)" by simp
  from secondPass_roots_spec[OF T ord order_refl inv this] obtain visited' cs where
    r0: "secondPass_roots T order (rev (map int [0..<length order])) ?s =
           Some (visited', snd ?s @ cs)"
    and inv0: "sccs_inv g (visited', snd ?s @ cs)"
    and all: "set order \<subseteq> visited_set visited'"
    and sub0: "subseq (map hd cs) (rev (take (length order) order))"
    and lat: "\<forall>C\<in>set cs. \<forall>x\<in>set C. later order x (hd C)"
    by blast
  from r0 lo
  have r: "secondPass_roots T order (rev (map int [0..<length g])) ?s = Some (visited', cs)"
    by simp
  from inv0 have inv': "sccs_inv g (visited', cs)" by simp
  from sub0 have sub: "subseq (map hd cs) (rev order)" by simp
  from inv' have "length visited' = length g" by (simp add: sccs_inv_def)
  from visited_set_nodes[OF this] all ord(2) have "visited_set visited' = nodes g" by blast
  with inv' have p: "distinct (concat cs)" "set (concat cs) = nodes g"
    "\<forall>C\<in>set cs. C \<noteq> [] \<and> set C = scc (edges g) (hd C)"
    by (simp_all add: sccs_inv_def)
  have fill: "map (\<lambda>_. False) visited = replicate (length g) False"
    using lv by (simp add: map_replicate_const)
  have "findSCCs g = Some cs"
  proof (cases "length g = 0")
    case True
    with r show ?thesis by (simp add: findSCCs_def)
  next
    case False
    with f t r fill show ?thesis by (simp add: findSCCs_def)
  qed
  with f t r ord(1,2) p sub lat
  have "findSCCs g = Some cs \<and> firstPass g = Some (visited, order) \<and>
     buildTranspose g = Some T \<and>
     secondPass_roots T order (rev (map int [0..<length g])) (replicate (length g) False, [])
       = Some (visited', cs) \<and>
     distinct order \<and> set order = nodes g \<and>
     distinct (concat cs) \<and> set (concat cs) = nodes g \<and>
     (\<forall>C\<in>set cs. C \<noteq> [] \<and> set C = scc (edges g) (hd C)) \<and>
     subseq (map hd cs) (rev order) \<and>
     (\<forall>C\<in>set cs. \<forall>x\<in>set C. later order x (hd C))"
    by (intro conjI) assumption+
  then show ?thesis by (intro exI)
qed





text \<open>
  Claim C2. The result of \<^verbatim>\<open>findSCCs\<close> is a partition of \<open>[0, n)\<close>: every node is in
  exactly one component, two components at different positions are disjoint, and the
  union of the components is \<open>[0, n)\<close>. Moreover no component lists a node twice.
\<close>

theorem findSCCs_partition:
  "\<exists>cs. findSCCs g = Some cs \<and>
     (\<forall>v\<in>nodes g. \<exists>!i. i < length cs \<and> v \<in> set (cs ! i)) \<and>
     (\<forall>i j. i < j \<and> j < length cs \<longrightarrow> set (cs ! i) \<inter> set (cs ! j) = {}) \<and>
     \<Union> (set ` set cs) = nodes g \<and>
     distinct (concat cs)"
proof -
  from findSCCs_spec[of g] obtain cs where res: "findSCCs g = Some cs"
    and d: "distinct (concat cs)" and all: "set (concat cs) = nodes g"
    and ne: "\<forall>C\<in>set cs. C \<noteq> []"
    by blast
  from d have dj: "\<And>ys zs. ys \<in> set cs \<Longrightarrow> zs \<in> set cs \<Longrightarrow> ys \<noteq> zs \<Longrightarrow>
      set ys \<inter> set zs = {}"
    and dc: "distinct (removeAll [] cs)"
    by (simp_all add: distinct_concat_iff)
  from ne have "[] \<notin> set cs" by blast
  then have "removeAll [] cs = cs" by (rule removeAll_id)
  with dc have dcs: "distinct cs" by simp
  have disj: "set (cs ! i) \<inter> set (cs ! j) = {}" if "i < length cs" "j < length cs" "i \<noteq> j"
    for i j
  proof -
    from dcs that have "cs ! i \<noteq> cs ! j" by (simp add: nth_eq_iff_index_eq)
    with that show ?thesis by (intro dj) simp_all
  qed
  have one: "\<exists>!i. i < length cs \<and> v \<in> set (cs ! i)" if "v \<in> nodes g" for v
  proof -
    from that all obtain C where "C \<in> set cs" "v \<in> set C" by auto
    then obtain i where i: "i < length cs" "v \<in> set (cs ! i)"
      by (auto simp: in_set_conv_nth)
    show ?thesis
    proof (rule ex1I[of _ i])
      show "i < length cs \<and> v \<in> set (cs ! i)" using i by simp
    next
      fix j assume "j < length cs \<and> v \<in> set (cs ! j)"
      with i disj[of i j] show "j = i" by auto
    qed
  qed
  have two: "\<forall>i j. i < j \<and> j < length cs \<longrightarrow> set (cs ! i) \<inter> set (cs ! j) = {}"
    using disj by simp
  from all have three: "\<Union> (set ` set cs) = nodes g" by simp
  from one have "\<forall>v\<in>nodes g. \<exists>!i. i < length cs \<and> v \<in> set (cs ! i)" by (rule ballI)
  with res two three d show ?thesis by (intro exI[of _ cs] conjI)
qed

theorem findSCCs_partition_witness:
  "\<exists>cs. findSCCs [[1], [0], [3], [2]] = Some cs \<and>
     (\<exists>!i. i < length cs \<and> 2 \<in> set (cs ! i)) \<and>
     (0 < length cs \<and> 1 < length cs \<and> set (cs ! 0) \<inter> set (cs ! 1) = {}) \<and>
     \<Union> (set ` set cs) = nodes [[1], [0], [3], [2]] \<and> distinct (concat cs)"
proof -
  from findSCCs_partition[of "[[1], [0], [3], [2]]"] obtain cs where
    res: "findSCCs [[1], [0], [3], [2]] = Some cs"
    and p1: "\<forall>v\<in>nodes [[1], [0], [3], [2]]. \<exists>!i. i < length cs \<and> v \<in> set (cs ! i)"
    and p2: "\<forall>i j. i < j \<and> j < length cs \<longrightarrow> set (cs ! i) \<inter> set (cs ! j) = {}"
    and p3: "\<Union> (set ` set cs) = nodes [[1], [0], [3], [2]]"
    and p4: "distinct (concat cs)"
    by (elim exE conjE)
  have "findSCCs [[1], [0], [3], [2]] = Some [[2, 3], [0, 1]]" by code_simp
  with res have cs: "cs = [[2, 3], [0, 1]]" by simp
  have "(2::int) \<in> nodes [[1], [0], [3], [2]]" by (simp add: nodes_def)
  with p1 have a: "\<exists>!i. i < length cs \<and> 2 \<in> set (cs ! i)" by (rule bspec)
  from cs have b: "0 < length cs \<and> 1 < length cs" by simp
  from p2 b have c: "set (cs ! 0) \<inter> set (cs ! 1) = {}" by simp
  from res a b c p3 p4 show ?thesis by (intro exI[of _ cs] conjI) simp_all
qed

text \<open>
  Claim C3. \<^verbatim>\<open>countSCCs\<close> returns the length of the result of \<^verbatim>\<open>findSCCs\<close>. For the
  empty graph \<^verbatim>\<open>findSCCs\<close> returns the empty sequence and the count is \<open>0\<close>; for
  \<open>n > 0\<close> nodes the count is at least \<open>1\<close> and at most \<open>n\<close>.
\<close>

theorem countSCCs_spec:
  "\<exists>cs. findSCCs g = Some cs \<and> countSCCs g = Some (int (length cs)) \<and>
     (length g = 0 \<longrightarrow> cs = [] \<and> countSCCs g = Some 0) \<and>
     (0 < length g \<longrightarrow> 1 \<le> int (length cs) \<and> int (length cs) \<le> int (length g))"
proof -
  from findSCCs_spec[of g] obtain cs where res: "findSCCs g = Some cs"
    and d: "distinct (concat cs)" and all: "set (concat cs) = nodes g"
    and ne: "\<forall>C\<in>set cs. C \<noteq> []"
    by blast
  from res have c: "countSCCs g = Some (int (length cs))" by (simp add: countSCCs_def)
  from d all have lc: "length (concat cs) = length g" by (rule length_order)
  with length_concat_ge[OF ne] have le: "length cs \<le> length g" by simp
  have "0 < length g \<longrightarrow> cs \<noteq> []"
  proof (intro impI notI)
    assume "0 < length g" "cs = []"
    with lc show False by simp
  qed
  then have "0 < length g \<longrightarrow> Suc 0 \<le> length cs" by (cases cs) simp_all
  with le have one:
    "0 < length g \<longrightarrow> 1 \<le> int (length cs) \<and> int (length cs) \<le> int (length g)"
    by (simp add: Suc_le_eq)
  have zero: "length g = 0 \<longrightarrow> cs = [] \<and> countSCCs g = Some 0"
  proof (intro impI)
    assume "length g = 0"
    with le have "cs = []" by simp
    with c show "cs = [] \<and> countSCCs g = Some 0" by simp
  qed
  from res c zero one show ?thesis by (intro exI[of _ cs] conjI)
qed

theorem countSCCs_spec_witness:
  "\<exists>cs. findSCCs [[1], [0], [3], [2]] = Some cs \<and>
     countSCCs [[1], [0], [3], [2]] = Some (int (length cs)) \<and>
     1 \<le> int (length cs) \<and> int (length cs) \<le> 4"
proof -
  from countSCCs_spec[of "[[1], [0], [3], [2]]"] obtain cs where
    res: "findSCCs [[1], [0], [3], [2]] = Some cs"
    and c: "countSCCs [[1], [0], [3], [2]] = Some (int (length cs))"
    and pos: "0 < length [[1], [0], [3], [2::int]] \<longrightarrow>
        1 \<le> int (length cs) \<and> int (length cs) \<le> int (length [[1], [0], [3], [2::int]])"
    by (elim exE conjE)
  from pos have "1 \<le> int (length cs) \<and> int (length cs) \<le> 4" by simp
  with res c show ?thesis by (intro exI[of _ cs] conjI) simp_all
qed


text \<open>
  Claim C6. \<^verbatim>\<open>findSCCs\<close> returns what the root loop of the second pass returns when it
  is run over the indices \<open>n - 1, \<dots>, 0\<close> of the finishing order, from an all-false
  \<^verbatim>\<open>visited\<close> array of size \<open>n\<close> and no components. The first nodes of the components,
  in the order of emission, form a subsequence of the finishing order read from its
  last element to its first, and the first node of a component is the node of the
  component that finished last.
\<close>

theorem findSCCs_emission_order:
  "\<exists>cs visited order T visited'.
     findSCCs g = Some cs \<and> firstPass g = Some (visited, order) \<and>
     buildTranspose g = Some T \<and>
     secondPass_roots T order (rev (map int [0..<length g])) (replicate (length g) False, [])
       = Some (visited', cs) \<and>
     subseq (map hd cs) (rev order) \<and>
     (\<forall>C\<in>set cs. \<forall>x\<in>set C. later order x (hd C))"
proof -
  from findSCCs_spec[of g] obtain cs visited order T visited' where
    "findSCCs g = Some cs" "firstPass g = Some (visited, order)" "buildTranspose g = Some T"
    "secondPass_roots T order (rev (map int [0..<length g])) (replicate (length g) False, [])
       = Some (visited', cs)"
    "subseq (map hd cs) (rev order)" "\<forall>C\<in>set cs. \<forall>x\<in>set C. later order x (hd C)"
    by (elim exE conjE)
  then show ?thesis by (intro exI conjI)
qed

theorem findSCCs_emission_order_witness:
  "\<exists>cs visited order.
     findSCCs [[1], [0], [3], [2]] = Some cs \<and>
     firstPass [[1], [0], [3], [2]] = Some (visited, order) \<and>
     subseq (map hd cs) (rev order) \<and> later order 3 2"
proof -
  from findSCCs_emission_order[of "[[1], [0], [3], [2]]"] obtain cs visited order where
    res: "findSCCs [[1], [0], [3], [2]] = Some cs"
    and f: "firstPass [[1], [0], [3], [2]] = Some (visited, order)"
    and sub: "subseq (map hd cs) (rev order)"
    and lat: "\<forall>C\<in>set cs. \<forall>x\<in>set C. later order x (hd C)"
    by (elim exE conjE)
  have "findSCCs [[1], [0], [3], [2]] = Some [[2, 3], [0, 1]]" by code_simp
  with res have cs: "cs = [[2, 3], [0, 1]]" by simp
  then have "[2, 3] \<in> set cs" by simp
  with lat have "\<forall>x\<in>set [2, 3]. later order x (hd [2, 3])" by (rule bspec)
  then have "later order 3 2" by simp
  with res f sub show ?thesis by (intro exI conjI)
qed

text \<open>
  Claim C8. \<^verbatim>\<open>findSCCs\<close> terminates on every graph. All calls of the two traversals
  and all runs of their loops lie in the accessible part of the call relation (the
  number of unmarked slots of \<^verbatim>\<open>visited\<close> decreases from a call to the calls nested in
  it), the other loops run over finite lists, and \<^verbatim>\<open>findSCCs\<close> returns a result. Every
  call of \<^verbatim>\<open>dfsFirstPass\<close> appends its node to \<^verbatim>\<open>order\<close> and every call of
  \<^verbatim>\<open>dfsSecondPass\<close> appends its node to a component; neither \<^verbatim>\<open>order\<close> nor the
  components together list a node twice: each pass visits a node at most once.
\<close>

theorem findSCCs_terminates:
  "dfsFirstPass_dfsFirstPass_loop_dom x \<and> dfsSecondPass_dfsSecondPass_loop_dom y \<and>
   (\<exists>cs visited order.
      findSCCs g = Some cs \<and> firstPass g = Some (visited, order) \<and>
      distinct order \<and> distinct (concat cs))"
proof -
  from findSCCs_spec[of g] obtain cs visited order where
    "findSCCs g = Some cs" "firstPass g = Some (visited, order)"
    "distinct order" "distinct (concat cs)"
    by (elim exE conjE)
  then have "\<exists>cs visited order.
      findSCCs g = Some cs \<and> firstPass g = Some (visited, order) \<and>
      distinct order \<and> distinct (concat cs)"
    by (intro exI conjI)
  moreover have "dfsFirstPass_dfsFirstPass_loop_dom x"
    using dfsFirstPass_terminates by simp
  moreover have "dfsSecondPass_dfsSecondPass_loop_dom y"
    using dfsSecondPass_terminates by simp
  ultimately show ?thesis by (intro conjI)
qed



section \<open>Edge targets out of range\<close>

lemma length_dropOutOfRange [simp]: "length (dropOutOfRange g) = length g"
  by (simp add: dropOutOfRange_def)

lemma nth_dropOutOfRange:
  "i < length g \<Longrightarrow> dropOutOfRange g ! i = filter (\<lambda>w. 0 \<le> w \<and> w < int (length g)) (g ! i)"
  by (simp add: dropOutOfRange_def)

lemma dfsFirstPass_dropOutOfRange:
  "dfsFirstPass (dropOutOfRange g) v s = dfsFirstPass g v s"
  "dfsFirstPass_loop (dropOutOfRange g) (filter (\<lambda>w. 0 \<le> w \<and> w < int (length g)) ws) s =
   dfsFirstPass_loop g ws s"
proof (induction g v s and g ws s rule: dfsFirstPass_dfsFirstPass_loop.induct)
  case (1 graph v visited order)
  show ?case
  proof (cases "0 \<le> v \<and> nat v < length visited \<and> nat v < length graph")
    case True
    with "1.IH"[OF True] show ?thesis
      by (simp add: dfsFirstPass.simps nth_dropOutOfRange)
  next
    case False
    then have "\<not> (0 \<le> v \<and> nat v < length visited \<and> nat v < length (dropOutOfRange graph))"
      by simp
    with False show ?thesis by (simp only: dfsFirstPass.simps if_False)
  qed
next
  case (2 graph s)
  show ?case by simp
next
  case (3 graph w ws visited order)
  let ?g' = "dropOutOfRange graph"
  let ?ws' = "filter (\<lambda>w. 0 \<le> w \<and> w < int (length graph)) ws"
  show ?case
  proof (cases "0 \<le> w \<and> w < int (length graph)")
    case False
    then have "filter (\<lambda>w. 0 \<le> w \<and> w < int (length graph)) (w # ws) = ?ws'"
      by (simp only: filter.simps if_False)
    with "3.IH"(4)[OF False] show ?thesis
      by (simp only: dfsFirstPass_loop_skip[OF False])
  next
    case r: True
    then have r': "0 \<le> w \<and> w < int (length ?g')" by simp
    from r have f: "filter (\<lambda>w. 0 \<le> w \<and> w < int (length graph)) (w # ws) = w # ?ws'"
      by simp
    show ?thesis
    proof (cases "nat w < length visited")
      case False
      with r show ?thesis by (simp add: dfsFirstPass_loop.simps(2))
    next
      case l: True
      show ?thesis
      proof (cases "visited ! nat w")
        case True
        then have nn: "\<not> \<not> visited ! nat w" by simp
        from "3.IH"(3)[OF r l nn] show ?thesis
          by (simp only: f dfsFirstPass_loop_seen[OF r l True]
              dfsFirstPass_loop_seen[OF r' l True])
      next
        case False
        note d = "3.IH"(1)[OF r l False]
        show ?thesis
        proof (cases "dfsFirstPass graph w (visited, order)")
          case None
          with d r l False show ?thesis by (simp add: dfsFirstPass_loop.simps(2))
        next
          case (Some s1)
          with d have d': "dfsFirstPass ?g' w (visited, order) = Some s1" by simp
          from "3.IH"(2)[OF r l False Some] show ?thesis
            by (simp only: f dfsFirstPass_loop_call[OF r l False Some]
                dfsFirstPass_loop_call[OF r' l False d'])
        qed
      qed
    qed
  qed
qed

lemma dfsSecondPass_dropOutOfRange:
  "dfsSecondPass (dropOutOfRange g) v s = dfsSecondPass g v s"
  "dfsSecondPass_loop (dropOutOfRange g) (filter (\<lambda>w. 0 \<le> w \<and> w < int (length g)) ws) s =
   dfsSecondPass_loop g ws s"
proof (induction g v s and g ws s rule: dfsSecondPass_dfsSecondPass_loop.induct)
  case (1 transposed v visited component)
  show ?case
  proof (cases "0 \<le> v \<and> nat v < length visited \<and> nat v < length transposed")
    case True
    with "1.IH"[OF True] show ?thesis
      by (simp add: dfsSecondPass.simps nth_dropOutOfRange)
  next
    case False
    then have
      "\<not> (0 \<le> v \<and> nat v < length visited \<and> nat v < length (dropOutOfRange transposed))"
      by simp
    with False show ?thesis by (simp only: dfsSecondPass.simps if_False)
  qed
next
  case (2 transposed s)
  show ?case by simp
next
  case (3 transposed w ws visited component)
  let ?g' = "dropOutOfRange transposed"
  let ?ws' = "filter (\<lambda>w. 0 \<le> w \<and> w < int (length transposed)) ws"
  show ?case
  proof (cases "0 \<le> w \<and> w < int (length transposed)")
    case False
    then have "filter (\<lambda>w. 0 \<le> w \<and> w < int (length transposed)) (w # ws) = ?ws'"
      by (simp only: filter.simps if_False)
    with "3.IH"(4)[OF False] show ?thesis
      by (simp only: dfsSecondPass_loop_skip[OF False])
  next
    case r: True
    then have r': "0 \<le> w \<and> w < int (length ?g')" by simp
    from r have f: "filter (\<lambda>w. 0 \<le> w \<and> w < int (length transposed)) (w # ws) = w # ?ws'"
      by simp
    show ?thesis
    proof (cases "nat w < length visited")
      case False
      with r show ?thesis by (simp add: dfsSecondPass_loop.simps(2))
    next
      case l: True
      show ?thesis
      proof (cases "visited ! nat w")
        case True
        then have nn: "\<not> \<not> visited ! nat w" by simp
        from "3.IH"(3)[OF r l nn] show ?thesis
          by (simp only: f dfsSecondPass_loop_seen[OF r l True]
              dfsSecondPass_loop_seen[OF r' l True])
      next
        case False
        note d = "3.IH"(1)[OF r l False]
        show ?thesis
        proof (cases "dfsSecondPass transposed w (visited, component)")
          case None
          with d r l False show ?thesis by (simp add: dfsSecondPass_loop.simps(2))
        next
          case (Some s1)
          with d have d': "dfsSecondPass ?g' w (visited, component) = Some s1" by simp
          from "3.IH"(2)[OF r l False Some] show ?thesis
            by (simp only: f dfsSecondPass_loop_call[OF r l False Some]
                dfsSecondPass_loop_call[OF r' l False d'])
        qed
      qed
    qed
  qed
qed

lemma firstPass_roots_dropOutOfRange:
  "firstPass_roots (dropOutOfRange g) vs s = firstPass_roots g vs s"
proof (induction vs arbitrary: s)
  case Nil
  show ?case by simp
next
  case (Cons v vs)
  obtain visited order where "s = (visited, order)" by (cases s)
  with Cons show ?case
    by (simp add: dfsFirstPass_dropOutOfRange(1) split: option.splits)
qed

lemma buildTranspose_inner_filter:
  "buildTranspose_inner n v (filter (\<lambda>w. 0 \<le> w \<and> w < int n) ws) T =
   buildTranspose_inner n v ws T"
  by (induction ws arbitrary: T) simp_all

lemma buildTranspose_outer_dropOutOfRange:
  "buildTranspose_outer (dropOutOfRange g) vs T = buildTranspose_outer g vs T"
proof (induction vs arbitrary: T)
  case Nil
  show ?case by simp
next
  case (Cons v vs)
  then show ?case
    by (simp add: nth_dropOutOfRange buildTranspose_inner_filter split: option.splits)
qed

text \<open>
  Claim C7. Edge targets outside \<open>[0, n)\<close> are dropped, never an error: neither
  traversal, nor the first pass, nor the construction of the transpose graph, nor
  \<^verbatim>\<open>findSCCs\<close> tells a graph from the graph with these targets removed, and
  \<^verbatim>\<open>findSCCs\<close> returns a result on every graph.
\<close>

theorem findSCCs_dropOutOfRange:
  "(\<exists>cs. findSCCs g = Some cs) \<and>
   findSCCs g = findSCCs (dropOutOfRange g) \<and>
   firstPass g = firstPass (dropOutOfRange g) \<and>
   buildTranspose g = buildTranspose (dropOutOfRange g) \<and>
   dfsFirstPass g v s = dfsFirstPass (dropOutOfRange g) v s \<and>
   dfsSecondPass g v s = dfsSecondPass (dropOutOfRange g) v s"
proof -
  have f: "firstPass (dropOutOfRange g) = firstPass g"
    by (simp add: firstPass_def firstPass_roots_dropOutOfRange)
  have t: "buildTranspose (dropOutOfRange g) = buildTranspose g"
    by (simp add: buildTranspose_def buildTranspose_outer_dropOutOfRange)
  have "findSCCs (dropOutOfRange g) = findSCCs g"
    unfolding findSCCs_def f t length_dropOutOfRange ..
  moreover from findSCCs_spec[of g] have "\<exists>cs. findSCCs g = Some cs" by blast
  ultimately show ?thesis
    using f t dfsFirstPass_dropOutOfRange(1)[of g v s] dfsSecondPass_dropOutOfRange(1)[of g v s]
    by simp
qed

end
